theory Spec2Isabelle
  imports Complex_Main "HOL-Library.Sublist"
begin

section \<open>Strings\<close>

text \<open>
  A Python \<open>str\<close> is a sequence of code points. The embedding takes the code points
  \<open>0 .. 255\<close> (ASCII and Latin-1), one \<^typ>\<open>char\<close> each, so \<^typ>\<open>string\<close> is the
  type of the case text and of every label and message. On this range \<open>str.lower\<close>,
  \<open>str.split\<close> and the classes of \<open>re\<close> are the finite tables written below.
\<close>

definition code :: "char \<Rightarrow> nat" where
  "code c = of_char c"

text \<open>The code points whose \<open>str.lower()\<close> differs from themselves: \<open>A-Z\<close>, and the
  Latin-1 capitals \<open>0xC0-0xD6\<close>, \<open>0xD8-0xDE\<close>. Each maps to the code point 32 above.\<close>

definition is_upper :: "char \<Rightarrow> bool" where
  "is_upper c = (let n = code c in
     (65 \<le> n \<and> n \<le> 90) \<or> (192 \<le> n \<and> n \<le> 214) \<or> (216 \<le> n \<and> n \<le> 222))"

definition lower_char :: "char \<Rightarrow> char" where
  "lower_char c = (if is_upper c then char_of (code c + 32) else c)"

definition lower :: "string \<Rightarrow> string" where
  "lower s = map lower_char s"

text \<open>The class \<open>[a-zA-Z]\<close>.\<close>

definition is_ascii_letter :: "char \<Rightarrow> bool" where
  "is_ascii_letter c = (let n = code c in (97 \<le> n \<and> n \<le> 122) \<or> (65 \<le> n \<and> n \<le> 90))"

text \<open>Whitespace as \<open>str.split()\<close> and the class \<open>\s\<close> of a \<open>str\<close> pattern see it:
  tab, line feed, vertical tab, form feed, carriage return, the separators
  \<open>0x1C-0x1F\<close>, space, next line \<open>0x85\<close> and no-break space \<open>0xA0\<close>.\<close>

definition is_space :: "char \<Rightarrow> bool" where
  "is_space c = (code c \<in> set [9, 10, 11, 12, 13, 28, 29, 30, 31, 32, 133, 160])"

text \<open>The lowercase ASCII letters \<open>a-z\<close>.\<close>

definition is_lower_ascii :: "char \<Rightarrow> bool" where
  "is_lower_ascii c = (97 \<le> code c \<and> code c \<le> 122)"

text \<open>\<open>sub in s\<close> on strings: \<open>sub\<close> occurs in \<open>s\<close> as a contiguous block.\<close>

fun contains :: "string \<Rightarrow> string \<Rightarrow> bool" where
  "contains sub [] = (sub = [])"
| "contains sub (c # cs) = (prefix sub (c # cs) \<or> contains sub cs)"

text \<open>What the specification means by a text that contains a phrase
  case-insensitively: some contiguous block of the text equals the phrase once both
  are lowercased.\<close>

definition occurs_ci :: "string \<Rightarrow> string \<Rightarrow> bool" where
  "occurs_ci phrase text = (\<exists>u v w. text = u @ v @ w \<and> lower v = lower phrase)"

text \<open>\<open>s.split()\<close> with no argument: skip whitespace, take the run of non-whitespace
  that follows as one word, repeat. No word is empty.\<close>

function split :: "string \<Rightarrow> string list" where
  "split s =
     (let s' = dropWhile is_space s
      in if s' = [] then []
         else takeWhile (\<lambda>c. \<not> is_space c) s' # split (dropWhile (\<lambda>c. \<not> is_space c) s'))"
  by pat_completeness auto
termination
proof (relation "measure length")
  show "wf (measure length)" by simp
next
  fix s s' :: string
  assume s': "s' = dropWhile is_space s" and ne: "s' \<noteq> []"
  then have "\<not> is_space (hd s')"
    using hd_dropWhile by metis
  with ne have "length (dropWhile (\<lambda>c. \<not> is_space c) s') < length s'"
    by (cases s') (simp_all add: length_dropWhile_le less_Suc_eq_le)
  moreover have "length s' \<le> length s"
    using s' by (simp add: length_dropWhile_le)
  ultimately show "(dropWhile (\<lambda>c. \<not> is_space c) s', s) \<in> measure length"
    by simp
qed

declare split.simps [simp del]

text \<open>\<open>sep.join(ws)\<close>.\<close>

fun join :: "string \<Rightarrow> string list \<Rightarrow> string" where
  "join sep [] = []"
| "join sep [w] = w"
| "join sep (w # v # ws) = w @ sep @ join sep (v # ws)"

section \<open>Regular expressions\<close>

text \<open>
  The patterns of the program are built from four forms: one character of a class,
  a greedy \<open>+\<close> over a class, sequence and alternation. \<open>ms r s\<close> lists the
  remainders of \<open>s\<close> after each way \<open>r\<close> matches at its start, in the order the
  backtracking matcher of \<open>re\<close> tries them: the longer repetition first, the left
  alternative first. The first entry is the match \<open>re\<close> reports.
\<close>

datatype regex =
    Atom "char \<Rightarrow> bool"
  | Plus "char \<Rightarrow> bool"
  | Seq regex regex
  | Alt regex regex

fun ms :: "regex \<Rightarrow> string \<Rightarrow> string list" where
  "ms (Atom p) [] = []"
| "ms (Atom p) (c # cs) = (if p c then [cs] else [])"
| "ms (Plus p) [] = []"
| "ms (Plus p) (c # cs) = (if p c then ms (Plus p) cs @ [cs] else [])"
| "ms (Seq a b) s = concat (map (ms b) (ms a s))"
| "ms (Alt a b) s = ms a s @ ms b s"

text \<open>The strings a pattern denotes, without reference to any matching order.\<close>

fun lang :: "regex \<Rightarrow> string set" where
  "lang (Atom p) = {[c] | c. p c}"
| "lang (Plus p) = {w. w \<noteq> [] \<and> list_all p w}"
| "lang (Seq a b) = {u @ v | u v. u \<in> lang a \<and> v \<in> lang b}"
| "lang (Alt a b) = lang a \<union> lang b"

text \<open>The match at the start of \<open>s\<close>, if there is one: the text consumed.\<close>

definition match_at :: "regex \<Rightarrow> string \<Rightarrow> string option" where
  "match_at r s = (case ms r s of [] \<Rightarrow> None | rest # _ \<Rightarrow> Some (take (length s - length rest) s))"

text \<open>\<open>re.search(r, s)\<close>, as a truth value: some position of \<open>s\<close> has a match.\<close>

fun re_search :: "regex \<Rightarrow> string \<Rightarrow> bool" where
  "re_search r [] = (ms r [] \<noteq> [])"
| "re_search r (c # cs) = (ms r (c # cs) \<noteq> [] \<or> re_search r cs)"

text \<open>\<open>re.findall(r, s)\<close> for a pattern with one group around the whole of it: the
  leftmost match, then the leftmost match after its end, and so on. \<open>skip\<close> counts
  the positions still inside the last match.\<close>

fun findall_from :: "regex \<Rightarrow> nat \<Rightarrow> string \<Rightarrow> string list" where
  "findall_from r skip [] = []"
| "findall_from r skip (c # cs) =
     (if 0 < skip then findall_from r (skip - 1) cs
      else case match_at r (c # cs) of
             None \<Rightarrow> findall_from r 0 cs
           | Some m \<Rightarrow> m # findall_from r (length m - 1) cs)"

definition re_findall :: "regex \<Rightarrow> string \<Rightarrow> string list" where
  "re_findall r s = findall_from r 0 s"

text \<open>Under \<open>re.IGNORECASE\<close> a literal character matches both of its cases and
  \<open>[A-Za-z]\<close> stays the ASCII letters; \<open>\s\<close> is not affected.\<close>

definition lit_i :: "char \<Rightarrow> regex" where
  "lit_i c = Atom (\<lambda>x. lower_char x = lower_char c)"

fun lits_i :: "string \<Rightarrow> regex \<Rightarrow> regex" where
  "lits_i [] k = k"
| "lits_i (c # cs) k = Seq (lit_i c) (lits_i cs k)"

text \<open>\<open>r'(person\s+[A-Za-z]|[A-Za-z]+\s+[A-Za-z]+)'\<close> with \<open>re.IGNORECASE\<close>.\<close>

definition person_pattern :: regex where
  "person_pattern =
     Alt (lits_i ''person'' (Seq (Plus is_space) (Atom is_ascii_letter)))
         (Seq (Plus is_ascii_letter) (Seq (Plus is_space) (Plus is_ascii_letter)))"

text \<open>\<open>r'person\s+a'\<close>, \<open>r'person\s+b'\<close>, \<open>r'person\s+c'\<close> with \<open>re.IGNORECASE\<close>.\<close>

definition person_letter :: "char \<Rightarrow> regex" where
  "person_letter x = lits_i ''person'' (Seq (Plus is_space) (lit_i x))"

text \<open>What the specification means by a text in which "person", whitespace and the
  letter \<open>x\<close> occur case-insensitively: somewhere in the text stands a block that
  lowercases to \<open>person\<close>, then one or more whitespace characters, then a
  character that lowercases to \<open>x\<close>.\<close>

definition occurs_person :: "char \<Rightarrow> string \<Rightarrow> bool" where
  "occurs_person x text =
     (\<exists>u p w y v. text = u @ p @ w @ [y] @ v \<and> lower p = ''person''
        \<and> w \<noteq> [] \<and> list_all is_space w \<and> lower_char y = x)"

section \<open>The text normalizer\<close>

text \<open>\<open>re.sub(r'[^a-zA-Z\s]', ' ', text)\<close>: every character that is neither an ASCII
  letter nor whitespace becomes one space.\<close>

definition re_sub_non_letters :: "string \<Rightarrow> string" where
  "re_sub_non_letters s = map (\<lambda>c. if is_ascii_letter c \<or> is_space c then c else CHR '' '') s"

definition preprocess_text :: "string \<Rightarrow> string" where
  "preprocess_text text =
     (let text = lower text;
          text = re_sub_non_letters text;
          text = join '' '' (split text)
      in text)"

section \<open>Participant extraction\<close>

text \<open>The \<open>for\<close> loop over the matches; \<open>parties\<close> is the list built so far.\<close>

fun parties_loop :: "string list \<Rightarrow> string list \<Rightarrow> string list" where
  "parties_loop [] parties = parties"
| "parties_loop (m # matches) parties =
     parties_loop matches
       (if lower m \<notin> set [''person a'', ''person b'', ''person c'']
        then (if lower m \<notin> set (map lower parties) then parties @ [m] else parties)
        else parties)"

definition extract_parties :: "string \<Rightarrow> string list" where
  "extract_parties text =
     (let parties = [];
          matches = re_findall person_pattern text;
          parties = parties_loop matches parties;
          parties = (if re_search (person_letter CHR ''a'') text then parties @ [''Person A''] else parties);
          parties = (if re_search (person_letter CHR ''b'') text then parties @ [''Person B''] else parties);
          parties = (if re_search (person_letter CHR ''c'') text then parties @ [''Person C''] else parties)
      in parties)"

section \<open>Explanations and recommendations\<close>

definition explanation_302 :: string where
  "explanation_302 = join [CHR 0x0A]
    [''Murder:'',
     ''- Punishment: Death or imprisonment for life, and fine'',
     ''- For proving murder, the prosecution must establish intention to cause death'',
     ''- The case must show premeditation or intention to cause bodily injury sufficient to cause death'']"

definition explanation_304 :: string where
  "explanation_304 = join [CHR 0x0A]
    [''Culpable Homicide Not Amounting to Murder:'',
     ''- Punishment: Imprisonment for life, or up to 10 years, and fine'',
     ''- Applies when death is caused without the intention to cause death'',
     ''- May apply when the act is done with the knowledge that it is likely to cause death'']"

definition explanation_304A :: string where
  "explanation_304A = join [CHR 0x0A]
    [''Death by Negligence:'',
     ''- Punishment: Imprisonment up to 2 years, or fine, or both'',
     ''- Applies when death is caused by a rash or negligent act'',
     ''- No intention to cause death or knowledge that the act would likely cause death'']"

definition explanation_308 :: string where
  "explanation_308 = join [CHR 0x0A]
    [''Attempt to Commit Culpable Homicide:'',
     ''- Punishment: Imprisonment up to 3 years, or fine, or both'',
     ''- Applies when an act is done with the intention of causing culpable homicide'',
     ''- The attempt does not result in death'']"

definition explanation_319 :: string where
  "explanation_319 = join [CHR 0x0A]
    [''Hurt:'',
     ''- Punishment: Imprisonment up to 1 year, or fine up to 1,000 rupees, or both'',
     ''- Causing bodily pain, disease, or infirmity to any person'',
     ''- Includes physical injury that causes pain'']"

definition explanation_320 :: string where
  "explanation_320 = join [CHR 0x0A]
    [''Grievous Hurt:'',
     ''- Punishment: Imprisonment up to 7 years, and fine'',
     ''- Includes emasculation, permanent privation of sight or hearing, fracture or dislocation of bones, or any hurt which endangers life'']"

definition explanation_376 :: string where
  "explanation_376 = join [CHR 0x0A]
    [''Rape:'',
     ''- Punishment: Rigorous imprisonment for a term not less than 7 years, may extend to life, and fine'',
     ''- Sexual intercourse without consent or with consent obtained under fear, threat, or false promises'']"

definition explanation_379 :: string where
  "explanation_379 = join [CHR 0x0A]
    [''Theft:'',
     ''- Punishment: Imprisonment up to 3 years, or fine, or both'',
     ''- Involves dishonestly taking property without consent'',
     ''- Must be done with the intention to permanently deprive the owner of the property'']"

definition explanation_392 :: string where
  "explanation_392 = join [CHR 0x0A]
    [''Robbery:'',
     ''- Punishment: Rigorous imprisonment up to 10 years, and fine'',
     ''- Theft with the use of force or fear of force'',
     ''- Includes attempt to cause death, hurt, or wrongful restraint to commit theft'']"

definition explanation_420 :: string where
  "explanation_420 = join [CHR 0x0A]
    [''Cheating and Dishonestly Inducing Delivery of Property:'',
     ''- Punishment: Imprisonment up to 7 years and fine'',
     ''- Involves fraudulent or deceptive practices resulting in wrongful gain'',
     ''- Must show intention to defraud from the beginning'']"

definition explanation_499 :: string where
  "explanation_499 = join [CHR 0x0A]
    [''Defamation:'',
     ''- Punishment: Simple imprisonment up to 2 years, or fine, or both'',
     ''- Making or publishing imputations concerning any person with intent to harm their reputation'',
     ''- Exceptions include truth for public good, fair comment on public conduct, etc.'']"

definition explanation_300 :: string where
  "explanation_300 = join [CHR 0x0A]
    [''Definition of Murder:'',
     ''- When the act is done with the intention of causing death'',
     ''- When the act is done with the intention of causing bodily injury likely to cause death'',
     ''- When the act is done with the knowledge that it is likely to cause death'']"

definition explanation_100 :: string where
  "explanation_100 = join [CHR 0x0A]
    [''Right of Private Defence of the Body Extending to Causing Death:'',
     ''- No punishment as it is a defense, not an offense'',
     ''- Applies when there is reasonable apprehension of death or grievous hurt'',
     ''- The threat must be immediate and not avoidable by other means'',
     ''- Force used must be proportionate to the threat'']"

definition explanation_76 :: string where
  "explanation_76 = join [CHR 0x0A]
    [''Act Done by a Person Bound by Law:'',
     ''- No offense if the act is done by a person who is bound by law to do it'',
     ''- The person must believe in good faith that they are bound by law to do the act'']"

definition explanation_79 :: string where
  "explanation_79 = join [CHR 0x0A]
    [''Act Done by a Person Justified by Law:'',
     ''- No offense if the act is justified by law'',
     ''- The person must believe in good faith that they are justified by law to do the act'']"

definition self_defense_text :: string where
  "self_defense_text = join [CHR 0x0A]
    [''It depends on the circumstances. If Person B kills Person A in self-defense to protect himself, then Person B would NOT be considered guilty of murder or culpable homicide.'',
     '''',
     ''This scenario is covered under Section 100 of IPC (Right of Private Defence of the Body Extending to Causing Death):'',
     ''- This allows a person to cause death in self-defense when there is reasonable apprehension of death or grievous hurt'',
     ''- For self-defense to be valid, the threat must be immediate and not avoidable by other means'',
     ''- The force used must be proportionate to the threat'',
     '''',
     ''If the case involves excessive force beyond what was necessary for self-defense, Person B may be guilty of culpable homicide not amounting to murder under Section 304.'',
     '''',
     ''If death occurred due to actions taken as part of legitimate self-defense, Person B would not be considered guilty at all.'']"

definition labor_law_text :: string where
  "labor_law_text = join [CHR 0x0A]
    [''Failure to pay minimum wage is primarily a violation under labor laws, specifically:'',
     '''',
     ''1. The Minimum Wages Act, 1948:'',
     ''   - Section 22: Imprisonment up to 6 months or fine up to 500 rupees, or both'',
     ''   - Employers are legally obligated to pay at least the minimum wage as notified'',
     '''',
     ''2. Under the Indian Penal Code, it may be considered:'',
     ''   - Section 420 (Cheating): If the employer induced work with no intention to pay'',
     ''   - May also be considered as criminal breach of trust in certain circumstances'',
     '''',
     ''The employee can:'',
     ''1. File a complaint with the Labor Commissioner'',
     ''2. File a civil suit for recovery of wages'',
     ''3. In egregious cases, file a criminal complaint for cheating'',
     '''',
     ''The exact penalty depends on:'',
     ''- Whether this was a systematic practice'',
     ''- Number of employees affected'',
     ''- Duration of non-payment'',
     ''- Whether there was deceit involved'']"

definition recommendations_high :: string where
  "recommendations_high = join [CHR 0x0A]
    [''Recommendations:'',
     ''- Strong confidence in legal analysis'',
     ''- Recommended to proceed with legal proceedings under the identified section'',
     ''- Document all evidence thoroughly'']"

definition recommendations_moderate :: string where
  "recommendations_moderate = join [CHR 0x0A]
    [''Recommendations:'',
     ''- Moderate confidence in legal analysis'',
     ''- Further investigation and evidence gathering recommended'',
     ''- Consider consulting a legal expert for case-specific advice'']"

definition recommendations_low :: string where
  "recommendations_low = join [CHR 0x0A]
    [''Recommendations:'',
     ''- Low confidence in automated analysis'',
     ''- Consult legal experts for detailed evaluation'',
     ''- Consider gathering more case details and evidence'',
     ''- Complex case may involve multiple legal provisions'']"

definition get_self_defense_explanation :: "string \<Rightarrow> string" where
  "get_self_defense_explanation case_text = self_defense_text"

definition get_labor_law_explanation :: "string \<Rightarrow> string" where
  "get_labor_law_explanation case_text = labor_law_text"

definition get_section_explanation :: "string \<Rightarrow> string \<Rightarrow> string" where
  "get_section_explanation section case_text =
     (if contains ''self-defense'' (lower case_text) \<or> contains ''self defense'' (lower case_text)
      then get_self_defense_explanation case_text
      else if contains ''minimum wage'' (lower case_text) \<or> contains ''labor'' (lower case_text)
              \<or> contains ''employer'' (lower case_text)
      then get_labor_law_explanation case_text
      else if section = ''302'' then explanation_302
      else if section = ''304'' then explanation_304
      else if section = ''304A'' then explanation_304A
      else if section = ''308'' then explanation_308
      else if section = ''319'' then explanation_319
      else if section = ''320'' then explanation_320
      else if section = ''376'' then explanation_376
      else if section = ''379'' then explanation_379
      else if section = ''392'' then explanation_392
      else if section = ''420'' then explanation_420
      else if section = ''499'' then explanation_499
      else if section = ''300'' then explanation_300
      else if section = ''100'' then explanation_100
      else if section = ''76'' then explanation_76
      else if section = ''79'' then explanation_79
      else ''Section '' @ section @ '' of the Indian Penal Code'')"

text \<open>The confidence is a Python float; the comparisons with 80 and 60 are exact on
  floats, so the embedding takes it as a real number.\<close>

definition get_recommendations :: "real \<Rightarrow> string" where
  "get_recommendations confidence =
     (if confidence > 80 then recommendations_high
      else if confidence > 60 then recommendations_moderate
      else recommendations_low)"

section \<open>The analysis\<close>

text \<open>
  An exception is the value \<open>Exception msg\<close>, with \<open>str(e) = msg\<close>. The four files
  that \<open>analyze_case\<close> opens are the record \<open>files\<close>: each field is what loading
  that file gives, an exception or the object. The objects are the methods the
  program calls on them, each applied to the one document of the call:
  \<open>vectorizer.transform([doc])\<close>, \<open>clf.predict(v)[0]\<close>, \<open>clf.predict_proba(v)[0]\<close>
  and \<open>label_encoder.inverse_transform([k])[0]\<close>.
\<close>

datatype error = Exception string

fun str :: "error \<Rightarrow> string" where
  "str (Exception msg) = msg"

type_synonym feature_vector = "real list"

record classifier =
  predict :: "feature_vector \<Rightarrow> error + nat"
  predict_proba :: "feature_vector \<Rightarrow> error + real list"

record vectorizer =
  transform :: "string \<Rightarrow> error + feature_vector"

record label_encoder =
  inverse_transform :: "nat \<Rightarrow> error + string"

record files =
  rf_classifier_pkl :: "error + classifier"
  tfidf_vectorizer_pkl :: "error + vectorizer"
  label_encoder_pkl :: "error + label_encoder"
  model_config_json :: "error + string"

text \<open>\<open>np.max\<close> of a one-dimensional array; it raises \<open>ValueError\<close> on an empty one.\<close>

definition np_max :: "real list \<Rightarrow> error + real" where
  "np_max xs = (case xs of
       [] \<Rightarrow> Inl (Exception ''zero-size array to reduction operation maximum which has no identity'')
     | x # ys \<Rightarrow> Inr (fold max ys x))"

text \<open>The values of the result dictionary, and the dictionary as the list of its
  items in insertion order.\<close>

datatype pyval = Str string | Float real | StrList "string list"

type_synonym result = "(string \<times> pyval) list"

text \<open>Sequencing inside the \<open>try\<close> block: the first exception ends it.\<close>

definition bind :: "error + 'a \<Rightarrow> ('a \<Rightarrow> error + 'b) \<Rightarrow> error + 'b" where
  "bind x f = (case x of Inl e \<Rightarrow> Inl e | Inr v \<Rightarrow> f v)"

definition try_block :: "files \<Rightarrow> string \<Rightarrow> error + result" where
  "try_block fs case_text =
     bind (rf_classifier_pkl fs) (\<lambda>clf.
     bind (tfidf_vectorizer_pkl fs) (\<lambda>vectorizer.
     bind (label_encoder_pkl fs) (\<lambda>label_encoder.
     bind (model_config_json fs) (\<lambda>config.
     let processed_text = preprocess_text case_text in
     bind (transform vectorizer processed_text) (\<lambda>text_vector.
     bind (predict clf text_vector) (\<lambda>prediction.
     bind (predict_proba clf text_vector) (\<lambda>probabilities.
     bind (inverse_transform label_encoder prediction) (\<lambda>section.
     bind (np_max probabilities) (\<lambda>peak.
     let confidence = peak * 100;
         parties = extract_parties case_text
     in Inr [(''case_text'', Str case_text),
             (''predicted_section'', Str section),
             (''confidence'', Float confidence),
             (''parties'', StrList parties),
             (''explanation'', Str (get_section_explanation section case_text)),
             (''recommendations'', Str (get_recommendations confidence))])))))))))"

text \<open>The dictionary the \<open>except\<close> branch returns for the exception \<open>e\<close>.\<close>

definition except_block :: "string \<Rightarrow> error \<Rightarrow> result" where
  "except_block case_text e =
     [(''case_text'', Str case_text),
      (''error'', Str (str e)),
      (''message'', Str ''An error occurred during analysis. Please check if all model files are available.'')]"

definition analyze_case :: "files \<Rightarrow> string \<Rightarrow> result" where
  "analyze_case fs case_text =
     (case try_block fs case_text of
        Inr result \<Rightarrow> result
      | Inl e \<Rightarrow> except_block case_text e)"

section \<open>A model fixture\<close>

text \<open>Artifacts for the end-to-end scenario: a classifier that predicts index 0 with
  the distribution \<open>[0.91, 0.06, 0.03]\<close>, and a decoder that maps index 0 to
  \<open>302\<close>.\<close>

definition fixture_classifier :: classifier where
  "fixture_classifier =
     \<lparr>predict = (\<lambda>v. Inr 0), predict_proba = (\<lambda>v. Inr [91 / 100, 6 / 100, 3 / 100])\<rparr>"

definition fixture_vectorizer :: vectorizer where
  "fixture_vectorizer = \<lparr>transform = (\<lambda>doc. Inr [1, 0, 0])\<rparr>"

definition fixture_label_encoder :: label_encoder where
  "fixture_label_encoder =
     \<lparr>inverse_transform = (\<lambda>k. if k = 0 then Inr ''302'' else if k = 1 then Inr ''304''
        else if k = 2 then Inr ''379''
        else Inl (Exception ''y contains previously unseen labels''))\<rparr>"

definition fixture_files :: files where
  "fixture_files =
     \<lparr>rf_classifier_pkl = Inr fixture_classifier,
      tfidf_vectorizer_pkl = Inr fixture_vectorizer,
      label_encoder_pkl = Inr fixture_label_encoder,
      model_config_json = Inr ''{}''\<rparr>"

section \<open>Properties of the text normalizer\<close>



lemma code_lower_char_upper: "is_upper c \<Longrightarrow> code (lower_char c) = code c + 32"
  by (auto simp: lower_char_def is_upper_def code_def Let_def of_char_of)

lemma lower_char_not_upper: "\<not> is_upper (lower_char c)"
proof (cases "is_upper c")
  case True
  then have "code (lower_char c) = code c + 32" by (rule code_lower_char_upper)
  with True show ?thesis by (auto simp: is_upper_def Let_def)
next
  case False
  then show ?thesis by (simp add: lower_char_def)
qed

lemma lower_char_idem: "lower_char (lower_char c) = lower_char c"
  using lower_char_not_upper [of c] by (simp add: lower_char_def)

lemma lower_idem: "lower (lower s) = lower s"
  by (simp add: lower_def lower_char_idem)


lemma letter_after_lower: "is_ascii_letter (lower_char c) \<Longrightarrow> is_lower_ascii (lower_char c)"
  using lower_char_not_upper [of c]
  by (auto simp: is_ascii_letter_def is_upper_def is_lower_ascii_def Let_def)

lemma lower_ascii_props:
  "is_lower_ascii c \<Longrightarrow> \<not> is_upper c \<and> is_ascii_letter c \<and> \<not> is_space c"
  by (auto simp: is_lower_ascii_def is_upper_def is_ascii_letter_def is_space_def Let_def)

lemma space_props: "is_space CHR '' '' \<and> \<not> is_upper CHR '' '' \<and> \<not> is_lower_ascii CHR '' ''"
  by (simp add: is_space_def is_upper_def code_def is_lower_ascii_def)

lemma split_Nil: "split [] = []"
  by (simp add: split.simps)



lemma split_space_Cons: "is_space c \<Longrightarrow> split (c # s) = split s"
proof -
  assume "is_space c"
  then have "dropWhile is_space (c # s) = dropWhile is_space s" by simp
  then show ?thesis
    using split.simps [of "c # s"] split.simps [of s] by simp
qed

lemma split_word_space:
  assumes "w \<noteq> []" "\<forall>c\<in>set w. \<not> is_space c" "is_space d"
  shows "split (w @ d # s) = w # split s"
proof -
  from assms(1,2) have d: "dropWhile is_space (w @ d # s) = w @ d # s"
    by (cases w) simp_all
  from assms(2,3) have t: "takeWhile (\<lambda>c. \<not> is_space c) (w @ d # s) = w"
    by (simp add: takeWhile_append2)
  from assms(2,3) have r: "dropWhile (\<lambda>c. \<not> is_space c) (w @ d # s) = d # s"
    by (simp add: dropWhile_append2)
  have "split (w @ d # s) = w # split (d # s)"
    by (subst split.simps) (simp add: d t r Let_def)
  with assms(3) show ?thesis by (simp add: split_space_Cons)
qed

lemma split_word:
  assumes "w \<noteq> []" "\<forall>c\<in>set w. \<not> is_space c"
  shows "split w = [w]"
proof -
  from assms have d: "dropWhile is_space w = w"
    by (cases w) simp_all
  from assms(2) have t: "takeWhile (\<lambda>c. \<not> is_space c) w = w" "dropWhile (\<lambda>c. \<not> is_space c) w = []"
    by simp_all
  show ?thesis
    by (subst split.simps) (simp add: d t Let_def assms(1) split_Nil)
qed




lemma split_join:
  "\<forall>w\<in>set ws. w \<noteq> [] \<and> (\<forall>c\<in>set w. \<not> is_space c) \<Longrightarrow> split (join '' '' ws) = ws"
proof (induction ws rule: induct_list012)
  case 1
  show ?case by (simp add: split_Nil)
next
  case (2 w)
  then show ?case by (simp add: split_word)
next
  case (3 w v ws)
  then have "split (w @ CHR '' '' # join '' '' (v # ws)) = w # split (join '' '' (v # ws))"
    by (intro split_word_space) (simp_all add: space_props)
  with 3 show ?case by simp
qed

lemma join_chars: "c \<in> set (join sep ws) \<Longrightarrow> c \<in> set sep \<or> (\<exists>w\<in>set ws. c \<in> set w)"
  by (induction sep ws rule: join.induct) auto





lemma split_all_space: "dropWhile is_space s = [] \<Longrightarrow> split s = []"
  using split.simps [of s] by simp

lemma split_unfold: "s' = dropWhile is_space s \<Longrightarrow> s' \<noteq> [] \<Longrightarrow> split s = takeWhile (\<lambda>c. \<not> is_space c) s' # split (dropWhile (\<lambda>c. \<not> is_space c) s')"
  using split.simps [of s] by (simp add: Let_def)

lemma hd_dropWhile_space: "s' = dropWhile is_space s \<Longrightarrow> s' \<noteq> [] \<Longrightarrow> \<not> is_space (hd s')"
  using hd_dropWhile [of is_space s] by simp

lemma takeWhile_nonempty: "s' \<noteq> [] \<Longrightarrow> \<not> is_space (hd s') \<Longrightarrow> takeWhile (\<lambda>c. \<not> is_space c) s' \<noteq> []"
  by (cases s') simp_all

lemma set_dropWhile_subset: "set (dropWhile P s) \<subseteq> set s"
  using set_dropWhileD [of _ P s] by blast

lemma takeWhile_props: "\<forall>c\<in>set (takeWhile (\<lambda>c. \<not> is_space c) s). \<not> is_space c \<and> c \<in> set s"
  using set_takeWhileD [of _ "\<lambda>c. \<not> is_space c" s] by blast



lemma words_mono:
  assumes IH: "\<forall>w\<in>set (split r). w \<noteq> [] \<and> (\<forall>c\<in>set w. \<not> is_space c \<and> c \<in> set r)"
   and r_sub: "set r \<subseteq> set s"
  shows "\<forall>w\<in>set (split r). w \<noteq> [] \<and> (\<forall>c\<in>set w. \<not> is_space c \<and> c \<in> set s)"
  using IH r_sub by (meson subsetD)

lemma words_unfold:
  assumes eq: "split s = w # split r"
    and "\<forall>w\<in>set (w # split r). w \<noteq> [] \<and> (\<forall>c\<in>set w. \<not> is_space c \<and> c \<in> set s)"
  shows "\<forall>w\<in>set (split s). w \<noteq> [] \<and> (\<forall>c\<in>set w. \<not> is_space c \<and> c \<in> set s)"
  using assms(2) unfolding eq .


lemma words_Cons: 
  assumes w_ne: "w \<noteq> []" and w_set: "\<forall>c\<in>set w. \<not> is_space c \<and> c \<in> set s"
   and tl_ok: "\<forall>w\<in>set (split r). w \<noteq> [] \<and> (\<forall>c\<in>set w. \<not> is_space c \<and> c \<in> set s)"
  shows "\<forall>w\<in>set (w # split r). w \<noteq> [] \<and> (\<forall>c\<in>set w. \<not> is_space c \<and> c \<in> set s)"
      using w_ne w_set tl_ok by (simp only: set_simps ball_simps) blast

lemma split_words:
  "\<forall>w\<in>set (split s). w \<noteq> [] \<and> (\<forall>c\<in>set w. \<not> is_space c \<and> c \<in> set s)"
proof (induction s rule: split.induct)
  case (1 s)
  define s' where "s' = dropWhile is_space s"
  show ?case
  proof (cases "s' = []")
    case True
    then have "split s = []" unfolding s'_def by (rule split_all_space)
    then show ?thesis by simp
  next
    case False
    let ?w = "takeWhile (\<lambda>c. \<not> is_space c) s'"
    let ?r = "dropWhile (\<lambda>c. \<not> is_space c) s'"
    have eq: "split s = ?w # split ?r"
      using s'_def False by (rule split_unfold)
    have "\<not> is_space (hd s')"
      using s'_def False by (rule hd_dropWhile_space)
    with False have w_ne: "?w \<noteq> []" by (rule takeWhile_nonempty)
    have sub: "set s' \<subseteq> set s"
      unfolding s'_def by (rule set_dropWhile_subset)
    have "set ?r \<subseteq> set s'"
      by (rule set_dropWhile_subset)
    then have r_sub: "set ?r \<subseteq> set s" using sub by (rule subset_trans)
    have w_set: "\<forall>c\<in>set ?w. \<not> is_space c \<and> c \<in> set s"
      using takeWhile_props [of s'] sub by (meson subsetD)
    have IH: "\<forall>w\<in>set (split ?r). w \<noteq> [] \<and> (\<forall>c\<in>set w. \<not> is_space c \<and> c \<in> set ?r)"
      using s'_def False by (rule "1.IH")
    have tl_ok: "\<forall>w\<in>set (split ?r). w \<noteq> [] \<and> (\<forall>c\<in>set w. \<not> is_space c \<and> c \<in> set s)"
      using IH r_sub by (rule words_mono)
    have "\<forall>w\<in>set (?w # split ?r). w \<noteq> [] \<and> (\<forall>c\<in>set w. \<not> is_space c \<and> c \<in> set s)"
      using w_ne w_set tl_ok by (rule words_Cons)
    with eq show ?thesis by (rule words_unfold)
  qed
qed



lemma sub_chars: "\<forall>c\<in>set (re_sub_non_letters (lower s)). is_lower_ascii c \<or> is_space c"
proof -
  have "is_lower_ascii (if is_ascii_letter (lower_char x) \<or> is_space (lower_char x) then lower_char x else CHR '' '')
        \<or> is_space (if is_ascii_letter (lower_char x) \<or> is_space (lower_char x) then lower_char x else CHR '' '')" for x
    using letter_after_lower [of x] space_props by auto
  then have "\<forall>x\<in>set s. is_lower_ascii ((\<lambda>c. if is_ascii_letter c \<or> is_space c then c else CHR '' '') (lower_char x))
        \<or> is_space ((\<lambda>c. if is_ascii_letter c \<or> is_space c then c else CHR '' '') (lower_char x))"
    by blast
  then show ?thesis
    unfolding re_sub_non_letters_def lower_def map_map set_map ball_simps comp_def .
qed

lemma lower_fixed: "\<forall>c\<in>set s. is_lower_ascii c \<or> c = CHR '' '' \<Longrightarrow> lower s = s"
proof -
  assume a: "\<forall>c\<in>set s. is_lower_ascii c \<or> c = CHR '' ''"
  have "lower_char c = c" if "c \<in> set s" for c
    using a that lower_ascii_props [of c] space_props by (auto simp: lower_char_def)
  then show ?thesis by (simp add: lower_def map_idI)
qed

lemma sub_fixed: "\<forall>c\<in>set s. is_lower_ascii c \<or> c = CHR '' '' \<Longrightarrow> re_sub_non_letters s = s"
proof -
  assume a: "\<forall>c\<in>set s. is_lower_ascii c \<or> c = CHR '' ''"
  have "(if is_ascii_letter c \<or> is_space c then c else CHR '' '') = c" if "c \<in> set s" for c
    using a that lower_ascii_props [of c] space_props by auto
  then show ?thesis by (simp add: re_sub_non_letters_def map_idI)
qed

lemma hd_join: "ws \<noteq> [] \<Longrightarrow> hd ws \<noteq> [] \<Longrightarrow> hd (join sep ws) = hd (hd ws)"
  by (induction ws rule: induct_list012) simp_all

lemma join_Nil_iff: "\<forall>w\<in>set ws. w \<noteq> [] \<Longrightarrow> join sep ws = [] \<longleftrightarrow> ws = []"
  by (induction ws rule: induct_list012) simp_all

lemma last_join: "ws \<noteq> [] \<Longrightarrow> \<forall>w\<in>set ws. w \<noteq> [] \<Longrightarrow> last (join sep ws) = last (last ws)"
proof (induction ws rule: induct_list012)
  case 1
  then show ?case by simp
next
  case (2 w)
  show ?case by simp
next
  case (3 w v ws)
  then have "join sep (v # ws) \<noteq> []"
    using join_Nil_iff [of "v # ws" sep] by simp
  with 3 show ?case by simp
qed

lemma contains_word_prefix:
  "\<forall>c\<in>set w. c \<noteq> CHR '' '' \<Longrightarrow> contains ''  '' (w @ r) = contains ''  '' r"
  by (induction w) auto

lemma no_double_space:
  "\<forall>w\<in>set ws. w \<noteq> [] \<and> (\<forall>c\<in>set w. c \<noteq> CHR '' '') \<Longrightarrow> \<not> contains ''  '' (join '' '' ws)"
proof (induction ws rule: induct_list012)
  case 1
  show ?case by simp
next
  case (2 w)
  then have "contains ''  '' (w @ []) = contains ''  '' []" by (intro contains_word_prefix) simp
  then show ?case by simp
next
  case (3 w v ws)
  then have v: "v \<noteq> []" "hd v \<noteq> CHR '' ''" by simp_all
  then have "hd (join '' '' (v # ws)) \<noteq> CHR '' ''" by (simp add: hd_join)
  moreover have "join '' '' (v # ws) \<noteq> []" using v by (cases ws) simp_all
  ultimately have "\<not> prefix ''  '' (CHR '' '' # join '' '' (v # ws))"
    by (cases "join '' '' (v # ws)") simp_all
  moreover have "\<not> contains ''  '' (join '' '' (v # ws))" using 3 by simp
  ultimately have "\<not> contains ''  '' (CHR '' '' # join '' '' (v # ws))" by simp
  moreover have "contains ''  '' (w @ (CHR '' '' # join '' '' (v # ws))) = contains ''  '' (CHR '' '' # join '' '' (v # ws))"
    using 3 by (intro contains_word_prefix) simp
  ultimately show ?case by simp
qed




lemma preprocess_text_words:
  "\<exists>ws. preprocess_text s = join '' '' ws \<and> (\<forall>w\<in>set ws. w \<noteq> [] \<and> (\<forall>c\<in>set w. is_lower_ascii c))"
proof -
  let ?t = "re_sub_non_letters (lower s)"
  have "\<forall>w\<in>set (split ?t). w \<noteq> [] \<and> (\<forall>c\<in>set w. is_lower_ascii c)"
  proof (intro ballI conjI)
    fix w assume w: "w \<in> set (split ?t)"
    with split_words [of ?t] have both: "w \<noteq> [] \<and> (\<forall>c\<in>set w. \<not> is_space c \<and> c \<in> set ?t)"
      by (rule bspec)
    then show "w \<noteq> []" by (rule conjunct1)
    fix c assume c: "c \<in> set w"
    from both have "\<forall>c\<in>set w. \<not> is_space c \<and> c \<in> set ?t"
      by (rule conjunct2)
    with c have "\<not> is_space c" "c \<in> set ?t" by simp_all
    with sub_chars [of s] show "is_lower_ascii c" by (meson bspec)
  qed
  moreover have "preprocess_text s = join '' '' (split ?t)"
    by (simp add: preprocess_text_def Let_def)
  ultimately show ?thesis by (rule_tac x = "split ?t" in exI) (rule conjI)
qed

lemma normal_form_fixed:
  assumes ws: "\<forall>w\<in>set ws. w \<noteq> [] \<and> (\<forall>c\<in>set w. is_lower_ascii c)"
  shows "preprocess_text (join '' '' ws) = join '' '' ws"
proof -
  have chars: "\<forall>c\<in>set (join '' '' ws). is_lower_ascii c \<or> c = CHR '' ''"
  proof
    fix c assume "c \<in> set (join '' '' ws)"
    then have "c \<in> set '' '' \<or> (\<exists>w\<in>set ws. c \<in> set w)" by (rule join_chars)
    with ws show "is_lower_ascii c \<or> c = CHR '' ''" by auto
  qed
  have nsp: "\<forall>w\<in>set ws. w \<noteq> [] \<and> (\<forall>c\<in>set w. \<not> is_space c)"
    using ws lower_ascii_props by (meson)
  have "split (join '' '' ws) = ws" using nsp by (rule split_join)
  then show ?thesis
    using lower_fixed [OF chars] sub_fixed [OF chars] by (simp add: preprocess_text_def Let_def)
qed

text \<open>
  Claim C4. The normalizer is total and idempotent, and its output is a sequence of
  non-empty words of lowercase ASCII letters joined by single spaces: it has no other
  character, no two adjacent spaces, and neither starts nor ends with whitespace.
\<close>

theorem preprocess_text_idempotent_normal_form:
  "preprocess_text (preprocess_text s) = preprocess_text s
   \<and> (\<exists>ws. preprocess_text s = join '' '' ws
             \<and> (\<forall>w\<in>set ws. w \<noteq> [] \<and> (\<forall>c\<in>set w. is_lower_ascii c)))
   \<and> (\<forall>c\<in>set (preprocess_text s). is_lower_ascii c \<or> c = CHR '' '')
   \<and> \<not> contains ''  '' (preprocess_text s)
   \<and> (preprocess_text s \<noteq> [] \<longrightarrow>
        \<not> is_space (hd (preprocess_text s)) \<and> \<not> is_space (last (preprocess_text s)))"
proof -
  obtain ws where out: "preprocess_text s = join '' '' ws"
    and ws: "\<forall>w\<in>set ws. w \<noteq> [] \<and> (\<forall>c\<in>set w. is_lower_ascii c)"
    using preprocess_text_words [of s] by blast
  have idem: "preprocess_text (preprocess_text s) = preprocess_text s"
    unfolding out using ws by (rule normal_form_fixed)
  have chars: "\<forall>c\<in>set (preprocess_text s). is_lower_ascii c \<or> c = CHR '' ''"
  proof
    fix c assume "c \<in> set (preprocess_text s)"
    then have "c \<in> set '' '' \<or> (\<exists>w\<in>set ws. c \<in> set w)" unfolding out by (rule join_chars)
    with ws show "is_lower_ascii c \<or> c = CHR '' ''" by auto
  qed
  have "c \<noteq> CHR '' ''" if "is_lower_ascii c" for c
    using that space_props by auto
  with ws have nsp: "\<forall>w\<in>set ws. w \<noteq> [] \<and> (\<forall>c\<in>set w. c \<noteq> CHR '' '')"
    by blast
  have single: "\<not> contains ''  '' (preprocess_text s)"
    unfolding out using nsp by (rule no_double_space)
  have ends: "\<not> is_space (hd (preprocess_text s)) \<and> \<not> is_space (last (preprocess_text s))"
    if ne: "preprocess_text s \<noteq> []"
  proof -
    from ne have ws_ne: "ws \<noteq> []" unfolding out by auto
    have all_ne: "\<forall>w\<in>set ws. w \<noteq> []" using ws by simp
    from ws_ne all_ne have h: "hd ws \<noteq> []" and l: "last ws \<noteq> []" by simp_all
    have "hd (join '' '' ws) = hd (hd ws)" using ws_ne h by (rule hd_join)
    moreover have "is_lower_ascii (hd (hd ws))" using ws ws_ne h by (meson hd_in_set)
    moreover have "last (join '' '' ws) = last (last ws)" using ws_ne all_ne by (rule last_join)
    moreover have "is_lower_ascii (last (last ws))" using ws ws_ne l by (meson last_in_set)
    ultimately show ?thesis unfolding out using lower_ascii_props by simp
  qed
  from idem out ws chars single ends show ?thesis by blast
qed

theorem preprocess_text_idempotent_normal_form_witness:
  "preprocess_text ''  Hello, World!! 123 foo-bar  '' = ''hello world foo bar''
   \<and> preprocess_text (preprocess_text ''  Hello, World!! 123 foo-bar  '') = ''hello world foo bar''
   \<and> list_all (\<lambda>c. is_lower_ascii c \<or> c = CHR '' '') (preprocess_text ''  Hello, World!! 123 foo-bar  '')
   \<and> \<not> contains ''  '' (preprocess_text ''  Hello, World!! 123 foo-bar  '')
   \<and> preprocess_text ''  Hello, World!! 123 foo-bar  '' \<noteq> []
   \<and> \<not> is_space (hd (preprocess_text ''  Hello, World!! 123 foo-bar  ''))
   \<and> \<not> is_space (last (preprocess_text ''  Hello, World!! 123 foo-bar  ''))"
proof -
  have v: "preprocess_text ''  Hello, World!! 123 foo-bar  '' = ''hello world foo bar''"
    by code_simp
  have ne: "preprocess_text ''  Hello, World!! 123 foo-bar  '' \<noteq> []"
    unfolding v by simp
  show ?thesis
    using preprocess_text_idempotent_normal_form [of "''  Hello, World!! 123 foo-bar  ''"] ne v
    unfolding list_all_iff by metis
qed

section \<open>Properties of explanations and recommendations\<close>


lemma contains_iff_sublist: "contains sub s = sublist sub s"
  by (induction s) (simp_all add: sublist_Cons_right)

lemma contains_lower_iff:
  assumes "lower p = p"
  shows "contains p (lower t) = occurs_ci p t"
proof
  assume "contains p (lower t)"
  then obtain a b where "map lower_char t = a @ p @ b"
    by (auto simp: contains_iff_sublist sublist_def lower_def)
  then have "\<exists>u r. t = u @ r \<and> a = map lower_char u \<and> p @ b = map lower_char r"
    by (simp only: map_eq_append_conv)
  then obtain u r where ur: "t = u @ r" "map lower_char r = p @ b"
    by metis
  from ur(2) have "\<exists>v w. r = v @ w \<and> p = map lower_char v \<and> b = map lower_char w"
    by (simp only: map_eq_append_conv)
  then obtain v w where "r = v @ w" "map lower_char v = p"
    by metis
  with ur have "t = u @ v @ w" "map lower_char v = p" by simp_all
  with assms show "occurs_ci p t"
    by (auto simp: occurs_ci_def lower_def)
next
  assume "occurs_ci p t"
  then obtain u v w where t: "t = u @ v @ w" and v: "lower v = lower p"
    by (auto simp: occurs_ci_def)
  from v assms have "lower t = lower u @ p @ lower w"
    by (simp add: t lower_def)
  then show "contains p (lower t)"
    by (auto simp: contains_iff_sublist sublist_def)
qed

lemma phrases_lower:
  "lower ''self-defense'' = ''self-defense''"
  "lower ''self defense'' = ''self defense''"
  "lower ''minimum wage'' = ''minimum wage''"
  "lower ''labor'' = ''labor''"
  "lower ''employer'' = ''employer''"
  by code_simp+

lemmas phrase_tests =
  phrases_lower [THEN contains_lower_iff]

lemma recommendations_distinct:
  "recommendations_high \<noteq> recommendations_moderate"
  "recommendations_high \<noteq> recommendations_low"
  "recommendations_moderate \<noteq> recommendations_low"
  by (simp_all add: recommendations_high_def recommendations_moderate_def recommendations_low_def)

text \<open>
  Claim C3. The recommendation is the high-confidence text exactly when the confidence
  exceeds 80, the moderate text exactly when it exceeds 60 and is at most 80, and the
  low-confidence text exactly when it is at most 60; 80 gives the moderate text and 60
  the low one.
\<close>

theorem get_recommendations_bands:
  "(get_recommendations c = recommendations_high) = (c > 80)
   \<and> (get_recommendations c = recommendations_moderate) = (60 < c \<and> c \<le> 80)
   \<and> (get_recommendations c = recommendations_low) = (c \<le> 60)
   \<and> get_recommendations 80 = recommendations_moderate
   \<and> get_recommendations 60 = recommendations_low"
  using recommendations_distinct by (auto simp: get_recommendations_def)



text \<open>
  Claim C8. For a label outside the fifteen codes of the explanation table and a text
  with none of the special phrases, the explanation is the one-line fallback that
  names the label as it is; no label makes the function fail.
\<close>

theorem unknown_section_fallback:
  assumes "label \<notin> set [''302'', ''304'', ''304A'', ''308'', ''319'', ''320'', ''376'', ''379'',
                         ''392'', ''420'', ''499'', ''300'', ''100'', ''76'', ''79'']"
    and "\<not> occurs_ci ''self-defense'' t" and "\<not> occurs_ci ''self defense'' t"
    and "\<not> occurs_ci ''minimum wage'' t" and "\<not> occurs_ci ''labor'' t"
    and "\<not> occurs_ci ''employer'' t"
  shows "get_section_explanation label t = ''Section '' @ label @ '' of the Indian Penal Code''"
  using assms by (simp add: get_section_explanation_def phrase_tests)


theorem unknown_section_fallback_witness:
  "''511'' \<notin> set [''302'', ''304'', ''304A'', ''308'', ''319'', ''320'', ''376'', ''379'',
                     ''392'', ''420'', ''499'', ''300'', ''100'', ''76'', ''79'']
   \<and> \<not> occurs_ci ''self-defense'' ''The accused attempted theft at night''
   \<and> \<not> occurs_ci ''self defense'' ''The accused attempted theft at night''
   \<and> \<not> occurs_ci ''minimum wage'' ''The accused attempted theft at night''
   \<and> \<not> occurs_ci ''labor'' ''The accused attempted theft at night''
   \<and> \<not> occurs_ci ''employer'' ''The accused attempted theft at night''
   \<and> get_section_explanation ''511'' ''The accused attempted theft at night''
       = ''Section 511 of the Indian Penal Code''"
proof -
  let ?t = "''The accused attempted theft at night''"
  have l: "''511'' \<notin> set [''302'', ''304'', ''304A'', ''308'', ''319'', ''320'', ''376'', ''379'',
                     ''392'', ''420'', ''499'', ''300'', ''100'', ''76'', ''79'']"
    by simp
  have p: "\<not> occurs_ci ''self-defense'' ?t" "\<not> occurs_ci ''self defense'' ?t"
    "\<not> occurs_ci ''minimum wage'' ?t" "\<not> occurs_ci ''labor'' ?t" "\<not> occurs_ci ''employer'' ?t"
    unfolding phrase_tests [symmetric] by code_simp+
  show ?thesis
    using unknown_section_fallback [OF l p] l p by simp
qed

section \<open>Properties of the matcher and of participant extraction\<close>


lemma ms_Plus:
  "set (ms (Plus p) s) = {r. \<exists>m. m \<noteq> [] \<and> list_all p m \<and> s = m @ r}"
proof (induction s)
  case Nil
  show ?case by simp
next
  case (Cons c cs)
  show ?case
  proof (cases "p c")
    case False
    have "\<not> (\<exists>m. m \<noteq> [] \<and> list_all p m \<and> c # cs = m @ r)" for r
    proof
      assume "\<exists>m. m \<noteq> [] \<and> list_all p m \<and> c # cs = m @ r"
      then obtain m where m: "m \<noteq> []" "list_all p m" "c # cs = m @ r" by blast
      then obtain m' where "m = c # m'" by (cases m) auto
      with m(2) False show False by simp
    qed
    with False show ?thesis by simp
  next
    case True
    have "{r. \<exists>m. m \<noteq> [] \<and> list_all p m \<and> c # cs = m @ r}
          = insert cs {r. \<exists>m. m \<noteq> [] \<and> list_all p m \<and> cs = m @ r}" (is "?L = ?R")
    proof (intro set_eqI iffI)
      fix r assume "r \<in> ?L"
      then obtain m where m: "m \<noteq> []" "list_all p m" "c # cs = m @ r" by blast
      then obtain m' where m': "m = c # m'" "cs = m' @ r" by (cases m) auto
      show "r \<in> ?R"
      proof (cases "m' = []")
        case True with m' show ?thesis by simp
      next
        case False with m m' show ?thesis by auto
      qed
    next
      fix r assume "r \<in> ?R"
      then consider "r = cs" | m where "m \<noteq> []" "list_all p m" "cs = m @ r" by blast
      then show "r \<in> ?L"
      proof cases
        case 1
        with True have "[c] \<noteq> [] \<and> list_all p [c] \<and> c # cs = [c] @ r" by simp
        then show ?thesis by blast
      next
        case 2
        with True have "c # m \<noteq> [] \<and> list_all p (c # m) \<and> c # cs = (c # m) @ r" by simp
        then show ?thesis by blast
      qed
    qed
    with True Cons show ?thesis by simp
  qed
qed

lemma ms_lang: "set (ms r s) = {rest. \<exists>m\<in>lang r. s = m @ rest}"
proof (induction r arbitrary: s)
  case (Atom p)
  show ?case by (cases s) auto
next
  case (Plus p)
  show ?case by (auto simp: ms_Plus)
next
  case (Seq a b)
  show ?case
  proof (intro set_eqI iffI)
    fix rest assume "rest \<in> set (ms (Seq a b) s)"
    then obtain mid where "mid \<in> set (ms a s)" "rest \<in> set (ms b mid)" by auto
    then obtain u v where "u \<in> lang a" "s = u @ mid" "v \<in> lang b" "mid = v @ rest"
      unfolding Seq.IH by blast
    then have "u @ v \<in> lang (Seq a b)" "s = (u @ v) @ rest" by auto
    then show "rest \<in> {rest. \<exists>m\<in>lang (Seq a b). s = m @ rest}" by blast
  next
    fix rest assume "rest \<in> {rest. \<exists>m\<in>lang (Seq a b). s = m @ rest}"
    then obtain u v where uv: "u \<in> lang a" "v \<in> lang b" "s = (u @ v) @ rest" by auto
    then have "v @ rest \<in> set (ms a s)" "rest \<in> set (ms b (v @ rest))"
      unfolding Seq.IH by auto
    then show "rest \<in> set (ms (Seq a b) s)" by auto
  qed
next
  case (Alt a b)
  show ?case by (auto simp: Alt.IH)
qed

lemma re_search_iff: "re_search r s = (\<exists>u m v. m \<in> lang r \<and> s = u @ m @ v)"
proof (induction s)
  case Nil
  have "(ms r [] \<noteq> []) = (set (ms r []) \<noteq> {})" by simp
  also have "\<dots> = ([] \<in> lang r)" unfolding ms_lang by auto
  finally show ?case by auto
next
  case (Cons c cs)
  have "(ms r (c # cs) \<noteq> []) = (set (ms r (c # cs)) \<noteq> {})" by simp
  also have "\<dots> = (\<exists>m v. m \<in> lang r \<and> c # cs = m @ v)" unfolding ms_lang by auto
  finally have hd: "(ms r (c # cs) \<noteq> []) = (\<exists>m v. m \<in> lang r \<and> c # cs = [] @ m @ v)" by simp
  show ?case
  proof
    assume "re_search r (c # cs)"
    then consider "ms r (c # cs) \<noteq> []" | "re_search r cs" by auto
    then show "\<exists>u m v. m \<in> lang r \<and> c # cs = u @ m @ v"
    proof cases
      case 1 with hd show ?thesis by blast
    next
      case 2
      with Cons obtain u m v where "m \<in> lang r" "cs = u @ m @ v" by blast
      then have "m \<in> lang r \<and> c # cs = (c # u) @ m @ v" by simp
      then show ?thesis by blast
    qed
  next
    assume "\<exists>u m v. m \<in> lang r \<and> c # cs = u @ m @ v"
    then obtain u m v where m: "m \<in> lang r" "c # cs = u @ m @ v" by blast
    show "re_search r (c # cs)"
    proof (cases u)
      case Nil
      with m have "m \<in> lang r \<and> c # cs = [] @ m @ v" by simp
      then have "ms r (c # cs) \<noteq> []" unfolding hd by blast
      then show ?thesis by simp
    next
      case (Cons d u')
      with m have "cs = u' @ m @ v" by simp
      with m(1) Cons.IH show ?thesis by auto
    qed
  qed
qed

lemma lang_lits_i:
  "lang (lits_i lit k) = {p @ m | p m. lower p = lower lit \<and> m \<in> lang k}"
proof (induction lit)
  case Nil
  show ?case by (simp add: lower_def)
next
  case (Cons c cs)
  show ?case
  proof (intro set_eqI iffI)
    fix x assume "x \<in> lang (lits_i (c # cs) k)"
    then obtain d p m where "x = [d] @ p @ m" "lower_char d = lower_char c" "lower p = lower cs" "m \<in> lang k"
      by (auto simp: Cons.IH lit_i_def)
    then have "x = (d # p) @ m \<and> lower (d # p) = lower (c # cs) \<and> m \<in> lang k"
      by (simp add: lower_def)
    then show "x \<in> {p @ m | p m. lower p = lower (c # cs) \<and> m \<in> lang k}" by blast
  next
    fix x assume "x \<in> {p @ m | p m. lower p = lower (c # cs) \<and> m \<in> lang k}"
    then obtain p m where x: "x = p @ m" "lower p = lower (c # cs)" "m \<in> lang k" by blast
    then obtain d p' where p: "p = d # p'" "lower_char d = lower_char c" "lower p' = lower cs"
      by (cases p) (auto simp: lower_def)
    with x have "p' @ m \<in> lang (lits_i cs k)" unfolding Cons.IH by blast
    moreover have "[d] \<in> lang (lit_i c)" using p by (simp add: lit_i_def)
    moreover have "x = [d] @ (p' @ m)" using p x by simp
    ultimately have "\<exists>u v. x = u @ v \<and> u \<in> lang (lit_i c) \<and> v \<in> lang (lits_i cs k)"
      by blast
    then show "x \<in> lang (lits_i (c # cs) k)"
      by simp
  qed
qed


lemma lang_no_empty: "[] \<notin> lang r"
  by (induction r) auto

lemma match_at_sound:
  assumes "match_at r s = Some m"
  shows "m \<noteq> [] \<and> prefix m s \<and> m \<in> lang r"
proof -
  from assms obtain rest rs where ms: "ms r s = rest # rs"
    and m: "m = take (length s - length rest) s"
    by (auto simp: match_at_def split: list.splits)
  from ms have "rest \<in> set (ms r s)" by simp
  then obtain m' where m': "m' \<in> lang r" "s = m' @ rest"
    unfolding ms_lang by blast
  with m have "m = m'" by simp
  with m' lang_no_empty [of r] show ?thesis by auto
qed

lemma match_at_None_iff: "match_at r s = None \<longleftrightarrow> (\<forall>m\<in>lang r. \<not> prefix m s)"
proof -
  have "match_at r s = None \<longleftrightarrow> set (ms r s) = {}"
    by (simp add: match_at_def split: list.splits)
  also have "\<dots> \<longleftrightarrow> (\<forall>m\<in>lang r. \<not> prefix m s)"
    unfolding ms_lang by (auto simp: prefix_def)
  finally show ?thesis .
qed

lemma findall_from_skip: "findall_from r n s = findall_from r 0 (drop n s)"
proof (induction s arbitrary: n)
  case Nil
  show ?case by simp
next
  case (Cons c cs)
  show ?case
  proof (cases n)
    case 0
    then show ?thesis by simp
  next
    case (Suc k)
    have "findall_from r (Suc k) (c # cs) = findall_from r k cs" by simp
    also have "\<dots> = findall_from r 0 (drop k cs)" by (rule Cons.IH)
    finally show ?thesis using Suc by simp
  qed
qed

lemma re_findall_unfold:
  "re_findall r [] = []"
  "match_at r (c # cs) = None \<Longrightarrow> re_findall r (c # cs) = re_findall r cs"
  "match_at r (c # cs) = Some m \<Longrightarrow>
     re_findall r (c # cs) = m # re_findall r (drop (length m) (c # cs))"
proof -
  show "re_findall r [] = []" by (simp add: re_findall_def)
  show "re_findall r (c # cs) = re_findall r cs" if "match_at r (c # cs) = None"
    using that by (simp add: re_findall_def)
  show "re_findall r (c # cs) = m # re_findall r (drop (length m) (c # cs))"
    if some: "match_at r (c # cs) = Some m"
  proof -
    from some have "m \<noteq> []" using match_at_sound by blast
    then obtain k where k: "length m = Suc k" by (cases m) auto
    have "re_findall r (c # cs) = m # findall_from r k cs"
      using some k by (simp add: re_findall_def)
    also have "findall_from r k cs = findall_from r 0 (drop k cs)"
      by (rule findall_from_skip)
    finally show ?thesis using k by (simp add: re_findall_def)
  qed
qed

lemma lower_person: "lower ''person'' = ''person''"
  by code_simp

lemma re_search_person_letter:
  assumes x: "lower_char x = x"
  shows "re_search (person_letter x) text = occurs_person x text"
proof
  assume "re_search (person_letter x) text"
  then obtain u m v where m: "m \<in> lang (person_letter x)" and t: "text = u @ m @ v"
    unfolding re_search_iff by blast
  from m obtain p k where pk: "m = p @ k" "lower p = lower ''person''"
      "k \<in> lang (Seq (Plus is_space) (lit_i x))"
    unfolding person_letter_def lang_lits_i by blast
  from pk(3) obtain w y where wy: "k = w @ [y]" "w \<noteq> []" "list_all is_space w"
      "lower_char y = lower_char x"
    by (auto simp: lit_i_def)
  from t pk wy have "text = u @ p @ w @ [y] @ v" by simp
  with pk(2) wy x lower_person show "occurs_person x text"
    unfolding occurs_person_def by metis
next
  assume "occurs_person x text"
  then obtain u p w y v where t: "text = u @ p @ w @ [y] @ v" and p: "lower p = ''person''"
      and w: "w \<noteq> []" "list_all is_space w" and y: "lower_char y = x"
    unfolding occurs_person_def by blast
  from y x have "[y] \<in> lang (lit_i x)" by (simp add: lit_i_def)
  with w have "w @ [y] \<in> lang (Seq (Plus is_space) (lit_i x))" by auto
  with p lower_person have "p @ (w @ [y]) \<in> lang (person_letter x)"
    unfolding person_letter_def lang_lits_i by auto
  moreover from t have "text = u @ (p @ (w @ [y])) @ v" by simp
  ultimately show "re_search (person_letter x) text"
    unfolding re_search_iff by blast
qed

lemma lower_abc:
  "lower_char CHR ''a'' = CHR ''a''" "lower_char CHR ''b'' = CHR ''b''"
  "lower_char CHR ''c'' = CHR ''c''"
  by code_simp+

lemma lower_canonical:
  "lower ''Person A'' = ''person a''" "lower ''Person B'' = ''person b''"
  "lower ''Person C'' = ''person c''"
  by code_simp+

lemma parties_loop_inv:
  "distinct (map lower ps) \<and> list_all (\<lambda>p. lower p \<notin> set [''person a'', ''person b'', ''person c'']) ps
   \<Longrightarrow> distinct (map lower (parties_loop matches ps))
     \<and> list_all (\<lambda>p. lower p \<notin> set [''person a'', ''person b'', ''person c''])
          (parties_loop matches ps)"
proof (induction matches arbitrary: ps)
  case Nil
  then show ?case by simp
next
  case (Cons m matches)
  let ?ps = "if lower m \<notin> set [''person a'', ''person b'', ''person c'']
        then (if lower m \<notin> set (map lower ps) then ps @ [m] else ps) else ps"
  from Cons.prems have "distinct (map lower ?ps)
      \<and> list_all (\<lambda>p. lower p \<notin> set [''person a'', ''person b'', ''person c'']) ?ps"
    by auto
  then have "distinct (map lower (parties_loop matches ?ps))
     \<and> list_all (\<lambda>p. lower p \<notin> set [''person a'', ''person b'', ''person c''])
          (parties_loop matches ?ps)"
    by (rule Cons.IH)
  then show ?case by simp
qed

lemma parties_loop_subset: "set (parties_loop matches ps) \<subseteq> set ps \<union> set matches"
proof (induction matches arbitrary: ps)
  case Nil
  show ?case by simp
next
  case (Cons m matches)
  let ?ps = "if lower m \<notin> set [''person a'', ''person b'', ''person c'']
        then (if lower m \<notin> set (map lower ps) then ps @ [m] else ps) else ps"
  have "set (parties_loop matches ?ps) \<subseteq> set ?ps \<union> set matches" by (rule Cons.IH)
  moreover have "set ?ps \<subseteq> set ps \<union> {m}" by auto
  ultimately show ?case by auto
qed

lemma generic_pass_inv:
  "distinct (map lower (parties_loop matches []))
   \<and> list_all (\<lambda>p. lower p \<notin> set [''person a'', ''person b'', ''person c''])
        (parties_loop matches [])"
  by (rule parties_loop_inv) simp

lemma extract_parties_eq:
  "extract_parties text = parties_loop (re_findall person_pattern text) []
     @ (if occurs_person CHR ''a'' text then [''Person A''] else [])
     @ (if occurs_person CHR ''b'' text then [''Person B''] else [])
     @ (if occurs_person CHR ''c'' text then [''Person C''] else [])"
  by (simp add: extract_parties_def Let_def re_search_person_letter lower_abc)

text \<open>
  Claim C7. In the generic pass a match that lowercases to "person a", "person b" or
  "person c" is skipped, and so is a match whose lowercase form is already the
  lowercase form of an entry; any other match is appended. Hence the entries of the
  generic pass, which open the extractor's output, are matches of the pattern, are
  pairwise different after lowercasing, and none lowercases to one of the three
  strings.
\<close>

theorem generic_pass_excludes_and_dedups:
  "(lower m \<in> set [''person a'', ''person b'', ''person c'']
      \<longrightarrow> parties_loop (m # matches) parties = parties_loop matches parties)
   \<and> (lower m \<in> set (map lower parties)
      \<longrightarrow> parties_loop (m # matches) parties = parties_loop matches parties)
   \<and> (lower m \<notin> set [''person a'', ''person b'', ''person c''] \<and> lower m \<notin> set (map lower parties)
      \<longrightarrow> parties_loop (m # matches) parties = parties_loop matches (parties @ [m]))
   \<and> distinct (map lower (parties_loop (re_findall person_pattern text) []))
   \<and> (\<forall>p\<in>set (parties_loop (re_findall person_pattern text) []).
         lower p \<notin> set [''person a'', ''person b'', ''person c''])
   \<and> set (parties_loop (re_findall person_pattern text) []) \<subseteq> set (re_findall person_pattern text)
   \<and> prefix (parties_loop (re_findall person_pattern text) []) (extract_parties text)"
proof -
  have steps: "(lower m \<in> set [''person a'', ''person b'', ''person c'']
      \<longrightarrow> parties_loop (m # matches) parties = parties_loop matches parties)
   \<and> (lower m \<in> set (map lower parties)
      \<longrightarrow> parties_loop (m # matches) parties = parties_loop matches parties)
   \<and> (lower m \<notin> set [''person a'', ''person b'', ''person c''] \<and> lower m \<notin> set (map lower parties)
      \<longrightarrow> parties_loop (m # matches) parties = parties_loop matches (parties @ [m]))"
    by simp
  have inv: "distinct (map lower (parties_loop (re_findall person_pattern text) []))
     \<and> (\<forall>p\<in>set (parties_loop (re_findall person_pattern text) []).
         lower p \<notin> set [''person a'', ''person b'', ''person c''])"
    using generic_pass_inv [of "re_findall person_pattern text"]
    unfolding list_all_iff .
  have sub: "set (parties_loop (re_findall person_pattern text) []) \<subseteq> set (re_findall person_pattern text)"
    using parties_loop_subset [of "re_findall person_pattern text" "[]"] by simp
  have pre: "prefix (parties_loop (re_findall person_pattern text) []) (extract_parties text)"
    unfolding extract_parties_eq by (rule prefixI) (rule refl)
  from steps inv sub pre show ?thesis by blast
qed

theorem generic_pass_excludes_and_dedups_witness:
  "re_findall person_pattern ''john doe, John Doe, Person B'' = [''john doe'', ''John Doe'', ''Person B'']
   \<and> lower ''Person B'' \<in> set [''person a'', ''person b'', ''person c'']
   \<and> parties_loop [''Person B''] [''john doe''] = parties_loop [] [''john doe'']
   \<and> lower ''John Doe'' \<in> set (map lower [''john doe''])
   \<and> parties_loop [''John Doe'', ''Person B''] [''john doe''] = parties_loop [''Person B''] [''john doe'']
   \<and> parties_loop (re_findall person_pattern ''john doe, John Doe, Person B'') [] = [''john doe'']
   \<and> distinct (map lower (parties_loop (re_findall person_pattern ''john doe, John Doe, Person B'') []))
   \<and> list_all (\<lambda>p. lower p \<notin> set [''person a'', ''person b'', ''person c''])
         (parties_loop (re_findall person_pattern ''john doe, John Doe, Person B'') [])
   \<and> prefix (parties_loop (re_findall person_pattern ''john doe, John Doe, Person B'') [])
         (extract_parties ''john doe, John Doe, Person B'')"
proof -
  let ?t = "''john doe, John Doe, Person B''"
  have f: "re_findall person_pattern ?t = [''john doe'', ''John Doe'', ''Person B'']"
    by code_simp
  have l1: "lower ''Person B'' \<in> set [''person a'', ''person b'', ''person c'']"
    by code_simp
  have l2: "lower ''John Doe'' \<in> set (map lower [''john doe''])"
    by code_simp
  have g: "parties_loop (re_findall person_pattern ?t) [] = [''john doe'']"
    by code_simp
  show ?thesis
    using generic_pass_excludes_and_dedups [of "''Person B''" "[]" "[''john doe'']" ?t]
      generic_pass_excludes_and_dedups [of "''John Doe''" "[''Person B'']" "[''john doe'']" ?t]
      f l1 l2 g
    unfolding list_all_iff by blast
qed


lemma canonical_distinct:
  "distinct (map lower
     ((if a then [''Person A''] else []) @ (if b then [''Person B''] else [])
      @ (if c then [''Person C''] else [])))"
  by (simp add: lower_canonical)

lemma canonical_lower_set:
  "set (map lower
     ((if a then [''Person A''] else []) @ (if b then [''Person B''] else [])
      @ (if c then [''Person C''] else []))) \<subseteq> set [''person a'', ''person b'', ''person c'']"
  by (cases a; cases b; cases c) (simp_all add: lower_canonical)

text \<open>
  Claim C10. For every text, no two elements of the extractor's output are equal after
  lowercasing, so none are equal as they stand either: the generic pass keeps its
  entries distinct up to case and away from "person a", "person b" and "person c",
  and the canonical pass adds each of "Person A", "Person B", "Person C" at most once.
\<close>

theorem extract_parties_distinct_up_to_case:
  "distinct (map lower (extract_parties text)) \<and> distinct (extract_parties text)"
proof -
  let ?g = "parties_loop (re_findall person_pattern text) []"
  let ?c = "(if occurs_person CHR ''a'' text then [''Person A''] else [])
     @ (if occurs_person CHR ''b'' text then [''Person B''] else [])
     @ (if occurs_person CHR ''c'' text then [''Person C''] else [])"
  have eq: "extract_parties text = ?g @ ?c"
    using extract_parties_eq [of "text"] by simp
  have g: "distinct (map lower ?g)"
    and g3: "list_all (\<lambda>p. lower p \<notin> set [''person a'', ''person b'', ''person c'']) ?g"
    using generic_pass_inv [of "re_findall person_pattern text"] by simp_all
  have c: "distinct (map lower ?c)" by (rule canonical_distinct)
  have c3: "set (map lower ?c) \<subseteq> set [''person a'', ''person b'', ''person c'']"
    by (rule canonical_lower_set)
  from g3 have "set (map lower ?g) \<inter> set [''person a'', ''person b'', ''person c''] = {}"
    unfolding list_all_iff by auto
  with c3 have "set (map lower ?g) \<inter> set (map lower ?c) = {}" by blast
  with g c have "distinct (map lower ?g @ map lower ?c)"
    by (simp only: distinct_append)
  then have d: "distinct (map lower (extract_parties text))"
    unfolding eq by (simp only: map_append)
  then have "distinct (extract_parties text)" by (simp add: distinct_map)
  with d show ?thesis by simp
qed

theorem extract_parties_distinct_up_to_case_witness:
  "extract_parties ''PERSON  b and person c'' = [''PERSON  b'', ''and person'', ''Person B'', ''Person C'']
   \<and> distinct (map lower (extract_parties ''PERSON  b and person c''))
   \<and> distinct (extract_parties ''PERSON  b and person c'')"
proof -
  have "extract_parties ''PERSON  b and person c'' = [''PERSON  b'', ''and person'', ''Person B'', ''Person C'']"
    by code_simp
  then show ?thesis
    using extract_parties_distinct_up_to_case [of "''PERSON  b and person c''"] by simp
qed

text \<open>
  Claim C6. The extractor's output is the generic-pass entries followed by "Person A",
  "Person B", "Person C", in this order, each present exactly when "person",
  whitespace and that letter occur in the text case-insensitively. "Person A attacked
  Person B" gives a list with "Person A" and "Person B", and "person a" in lowercase
  still gives "Person A".
\<close>

theorem canonical_parties_appended:
  "extract_parties text = parties_loop (re_findall person_pattern text) []
     @ (if occurs_person CHR ''a'' text then [''Person A''] else [])
     @ (if occurs_person CHR ''b'' text then [''Person B''] else [])
     @ (if occurs_person CHR ''c'' text then [''Person C''] else [])
   \<and> (occurs_person CHR ''a'' text \<longrightarrow> ''Person A'' \<in> set (extract_parties text))
   \<and> (occurs_person CHR ''b'' text \<longrightarrow> ''Person B'' \<in> set (extract_parties text))
   \<and> (occurs_person CHR ''c'' text \<longrightarrow> ''Person C'' \<in> set (extract_parties text))
   \<and> extract_parties ''Person A attacked Person B'' = [''attacked Person'', ''Person A'', ''Person B'']
   \<and> extract_parties ''person a hit the victim'' = [''hit the'', ''Person A'']"
proof -
  have eq: "extract_parties text = parties_loop (re_findall person_pattern text) []
     @ (if occurs_person CHR ''a'' text then [''Person A''] else [])
     @ (if occurs_person CHR ''b'' text then [''Person B''] else [])
     @ (if occurs_person CHR ''c'' text then [''Person C''] else [])"
    by (rule extract_parties_eq)
  have a: "occurs_person CHR ''a'' text \<longrightarrow> ''Person A'' \<in> set (extract_parties text)"
    and b: "occurs_person CHR ''b'' text \<longrightarrow> ''Person B'' \<in> set (extract_parties text)"
    and c: "occurs_person CHR ''c'' text \<longrightarrow> ''Person C'' \<in> set (extract_parties text)"
    unfolding eq by simp_all
  have e1: "extract_parties ''Person A attacked Person B'' = [''attacked Person'', ''Person A'', ''Person B'']"
    by code_simp
  have e2: "extract_parties ''person a hit the victim'' = [''hit the'', ''Person A'']"
    by code_simp
  from eq a b c e1 e2 show ?thesis by (intro conjI)
qed

theorem canonical_parties_appended_witness:
  "occurs_person CHR ''b'' ''PERSON  b and person c''
   \<and> occurs_person CHR ''c'' ''PERSON  b and person c''
   \<and> \<not> occurs_person CHR ''a'' ''PERSON  b and person c''
   \<and> parties_loop (re_findall person_pattern ''PERSON  b and person c'') [] = [''PERSON  b'', ''and person'']
   \<and> extract_parties ''PERSON  b and person c'' = [''PERSON  b'', ''and person''] @ [''Person B''] @ [''Person C'']
   \<and> ''Person B'' \<in> set (extract_parties ''PERSON  b and person c'')
   \<and> ''Person C'' \<in> set (extract_parties ''PERSON  b and person c'')"
proof -
  let ?t = "''PERSON  b and person c''"
  have o: "occurs_person CHR ''b'' ?t" "occurs_person CHR ''c'' ?t" "\<not> occurs_person CHR ''a'' ?t"
    unfolding lower_abc [THEN re_search_person_letter, symmetric] by code_simp+
  have g: "parties_loop (re_findall person_pattern ?t) [] = [''PERSON  b'', ''and person'']"
    by code_simp
  show ?thesis
    using canonical_parties_appended [of ?t] o g by simp
qed

section \<open>Properties of the analysis\<close>


lemma np_max_Max:
  assumes "ps \<noteq> []"
  shows "np_max ps = Inr (Max (set ps))"
proof (cases ps)
  case Nil
  with assms show ?thesis by simp
next
  case (Cons x ys)
  have "fold max ys x = Max (set (x # ys))" by (rule Max.set_eq_fold [symmetric])
  with Cons show ?thesis by (simp add: np_max_def)
qed

lemma elem_le_sum_list:
  fixes ps :: "real list"
  shows "\<forall>p\<in>set ps. 0 \<le> p \<Longrightarrow> x \<in> set ps \<Longrightarrow> x \<le> sum_list ps"
proof (induction ps)
  case Nil
  then show ?case by simp
next
  case (Cons p ps)
  then have nn: "0 \<le> p" "0 \<le> sum_list ps" by (simp_all add: sum_list_nonneg)
  show ?case
  proof (cases "x = p")
    case True
    with nn show ?thesis by simp
  next
    case False
    with Cons have "x \<le> sum_list ps" by simp
    with nn show ?thesis by simp
  qed
qed

lemma Max_distribution:
  fixes ps :: "real list"
  assumes "ps \<noteq> []" "\<forall>p\<in>set ps. 0 \<le> p" "sum_list ps = 1"
  shows "0 \<le> Max (set ps) \<and> Max (set ps) \<le> 1"
proof -
  from assms(1) have in_set: "Max (set ps) \<in> set ps" by (intro Max_in) simp_all
  with assms(2) have "0 \<le> Max (set ps)" by blast
  moreover from assms(2) in_set have "Max (set ps) \<le> sum_list ps" by (rule elem_le_sum_list)
  ultimately show ?thesis using assms(3) by simp
qed

lemma try_block_success:
  assumes "rf_classifier_pkl fs = Inr clf" "tfidf_vectorizer_pkl fs = Inr vec"
    "label_encoder_pkl fs = Inr enc" "model_config_json fs = Inr cfg"
    "transform vec (preprocess_text t) = Inr v" "predict clf v = Inr k"
    "predict_proba clf v = Inr ps" "inverse_transform enc k = Inr sec" "ps \<noteq> []"
  shows "try_block fs t = Inr
     [(''case_text'', Str t),
      (''predicted_section'', Str sec),
      (''confidence'', Float (Max (set ps) * 100)),
      (''parties'', StrList (extract_parties t)),
      (''explanation'', Str (get_section_explanation sec t)),
      (''recommendations'', Str (get_recommendations (Max (set ps) * 100)))]"
  using assms by (simp add: try_block_def bind_def np_max_Max Let_def)

lemma try_block_keys:
  "try_block fs t = Inr r \<Longrightarrow>
   map fst r = [''case_text'', ''predicted_section'', ''confidence'', ''parties'',
                ''explanation'', ''recommendations'']"
  by (auto simp: try_block_def bind_def Let_def split: sum.splits)


lemma analyze_case_failure:
  "try_block fs t = Inl e \<Longrightarrow> analyze_case fs t = except_block t e"
  by (simp add: analyze_case_def)

lemma analyze_case_keys:
  "map fst (analyze_case fs t) = [''case_text'', ''error'', ''message'']
   \<or> map fst (analyze_case fs t) = [''case_text'', ''predicted_section'', ''confidence'',
         ''parties'', ''explanation'', ''recommendations'']"
proof (cases "try_block fs t")
  case (Inl e)
  then show ?thesis by (simp add: analyze_case_def except_block_def)
next
  case (Inr r)
  then have "map fst r = [''case_text'', ''predicted_section'', ''confidence'', ''parties'',
                ''explanation'', ''recommendations'']"
    by (rule try_block_keys)
  with Inr show ?thesis by (simp add: analyze_case_def)
qed

text \<open>
  Claim C1. When the artifacts load and the classifier returns a distribution (not
  empty, no negative entry, sum 1), the confidence of the result is 100 times the
  largest entry of the distribution, whatever index the classifier predicted and
  whatever label it decodes to, and it lies between 0 and 100. The confidence is
  taken as a real number: the rounding of the float product is not modelled.
\<close>

theorem confidence_is_peak_probability:
  assumes "rf_classifier_pkl fs = Inr clf" and "tfidf_vectorizer_pkl fs = Inr vec"
    and "label_encoder_pkl fs = Inr enc" and "model_config_json fs = Inr cfg"
    and "transform vec (preprocess_text t) = Inr v" and "predict clf v = Inr k"
    and "predict_proba clf v = Inr ps" and "inverse_transform enc k = Inr sec"
    and "ps \<noteq> []" and "\<forall>p\<in>set ps. 0 \<le> p" and "sum_list ps = 1"
  shows "map_of (analyze_case fs t) ''confidence'' = Some (Float (100 * Max (set ps)))
    \<and> 0 \<le> 100 * Max (set ps) \<and> 100 * Max (set ps) \<le> 100"
proof -
  have "try_block fs t = Inr
     [(''case_text'', Str t),
      (''predicted_section'', Str sec),
      (''confidence'', Float (Max (set ps) * 100)),
      (''parties'', StrList (extract_parties t)),
      (''explanation'', Str (get_section_explanation sec t)),
      (''recommendations'', Str (get_recommendations (Max (set ps) * 100)))]"
    using assms(1-9) by (rule try_block_success)
  then have "map_of (analyze_case fs t) ''confidence'' = Some (Float (100 * Max (set ps)))"
    by (simp add: analyze_case_def mult.commute)
  moreover have "0 \<le> Max (set ps) \<and> Max (set ps) \<le> 1"
    using assms(9-11) by (rule Max_distribution)
  ultimately show ?thesis by simp
qed


theorem confidence_is_peak_probability_witness:
  "map_of (analyze_case
      (fixture_files\<lparr>rf_classifier_pkl :=
          Inr \<lparr>predict = (\<lambda>v. Inr 1), predict_proba = (\<lambda>v. Inr [7 / 10, 3 / 10])\<rparr>\<rparr>)
      ''The accused stole a laptop from the office'') ''confidence'' = Some (Float 70)
   \<and> 100 * ([7 / 10, 3 / 10] ! 1) = (30 :: real)
   \<and> (0 :: real) \<le> 100 * Max (set [7 / 10, 3 / 10])
   \<and> 100 * Max (set [7 / 10, 3 / 10]) \<le> (100 :: real)"
proof -
  let ?clf = "\<lparr>predict = (\<lambda>v. Inr 1), predict_proba = (\<lambda>v. Inr [7 / 10, 3 / 10 :: real])\<rparr>"
  let ?fs = "fixture_files\<lparr>rf_classifier_pkl := Inr ?clf\<rparr>"
  let ?t = "''The accused stole a laptop from the office''"
  have a1: "rf_classifier_pkl ?fs = Inr ?clf" by simp
  have a2: "tfidf_vectorizer_pkl ?fs = Inr fixture_vectorizer" by (simp add: fixture_files_def)
  have a3: "label_encoder_pkl ?fs = Inr fixture_label_encoder" by (simp add: fixture_files_def)
  have a4: "model_config_json ?fs = Inr ''{}''" by (simp add: fixture_files_def)
  have a5: "transform fixture_vectorizer (preprocess_text ?t) = Inr [1, 0, 0]"
    by (simp add: fixture_vectorizer_def)
  have a6: "predict ?clf [1, 0, 0] = Inr 1" by simp
  have a7: "predict_proba ?clf [1, 0, 0] = Inr [7 / 10, 3 / 10]" by simp
  have a8: "inverse_transform fixture_label_encoder 1 = Inr ''304''"
    by (simp add: fixture_label_encoder_def)
  have a9: "[7 / 10, 3 / 10 :: real] \<noteq> []" by simp
  have a10: "\<forall>p\<in>set [7 / 10, 3 / 10 :: real]. 0 \<le> p" by simp
  have a11: "sum_list [7 / 10, 3 / 10 :: real] = 1" by simp
  have m: "Max (set [7 / 10, 3 / 10 :: real]) = 7 / 10" by simp
  show ?thesis
    using confidence_is_peak_probability [OF a1 a2 a3 a4 a5 a6 a7 a8 a9 a10 a11]
    unfolding m by simp
qed

text \<open>
  Claim C5. When loading an artifact, vectorizing, classifying or decoding raises, the
  result is the failure record: its keys are \<open>case_text\<close>, \<open>error\<close> and
  \<open>message\<close> only, the case text is the input as given, the error is the
  exception's text and the message is the fixed one. No result has the \<open>error\<close> key
  together with a key of the success record.
\<close>

theorem analyze_case_failure_record:
  "(rf_classifier_pkl fs = Inl e \<longrightarrow> analyze_case fs t = except_block t e)
   \<and> (rf_classifier_pkl fs = Inr clf \<and> tfidf_vectorizer_pkl fs = Inl e
        \<longrightarrow> analyze_case fs t = except_block t e)
   \<and> (rf_classifier_pkl fs = Inr clf \<and> tfidf_vectorizer_pkl fs = Inr vec
        \<and> label_encoder_pkl fs = Inl e
        \<longrightarrow> analyze_case fs t = except_block t e)
   \<and> (rf_classifier_pkl fs = Inr clf \<and> tfidf_vectorizer_pkl fs = Inr vec
        \<and> label_encoder_pkl fs = Inr enc \<and> model_config_json fs = Inl e
        \<longrightarrow> analyze_case fs t = except_block t e)
   \<and> (rf_classifier_pkl fs = Inr clf \<and> tfidf_vectorizer_pkl fs = Inr vec
        \<and> label_encoder_pkl fs = Inr enc \<and> model_config_json fs = Inr cfg
        \<and> transform vec (preprocess_text t) = Inl e
        \<longrightarrow> analyze_case fs t = except_block t e)
   \<and> (rf_classifier_pkl fs = Inr clf \<and> tfidf_vectorizer_pkl fs = Inr vec
        \<and> label_encoder_pkl fs = Inr enc \<and> model_config_json fs = Inr cfg
        \<and> transform vec (preprocess_text t) = Inr v \<and> predict clf v = Inl e
        \<longrightarrow> analyze_case fs t = except_block t e)
   \<and> (rf_classifier_pkl fs = Inr clf \<and> tfidf_vectorizer_pkl fs = Inr vec
        \<and> label_encoder_pkl fs = Inr enc \<and> model_config_json fs = Inr cfg
        \<and> transform vec (preprocess_text t) = Inr v \<and> predict clf v = Inr k
        \<and> predict_proba clf v = Inl e
        \<longrightarrow> analyze_case fs t = except_block t e)
   \<and> (rf_classifier_pkl fs = Inr clf \<and> tfidf_vectorizer_pkl fs = Inr vec
        \<and> label_encoder_pkl fs = Inr enc \<and> model_config_json fs = Inr cfg
        \<and> transform vec (preprocess_text t) = Inr v \<and> predict clf v = Inr k
        \<and> predict_proba clf v = Inr ps \<and> inverse_transform enc k = Inl e
        \<longrightarrow> analyze_case fs t = except_block t e)
   \<and> (try_block fs t = Inl e \<longrightarrow> analyze_case fs t = except_block t e)
   \<and> except_block t e =
        [(''case_text'', Str t), (''error'', Str (str e)),
         (''message'', Str ''An error occurred during analysis. Please check if all model files are available.'')]
   \<and> map_of (analyze_case fs t) ''case_text'' = Some (Str t)
   \<and> \<not> (''error'' \<in> set (map fst (analyze_case fs t))
        \<and> (''predicted_section'' \<in> set (map fst (analyze_case fs t))
           \<or> ''confidence'' \<in> set (map fst (analyze_case fs t))
           \<or> ''parties'' \<in> set (map fst (analyze_case fs t))
           \<or> ''explanation'' \<in> set (map fst (analyze_case fs t))
           \<or> ''recommendations'' \<in> set (map fst (analyze_case fs t))))"
proof -
  have s1: "rf_classifier_pkl fs = Inl e \<longrightarrow> analyze_case fs t = except_block t e"
    by (simp add: analyze_case_def try_block_def bind_def)
  have s2: "rf_classifier_pkl fs = Inr clf \<and> tfidf_vectorizer_pkl fs = Inl e
        \<longrightarrow> analyze_case fs t = except_block t e"
    by (simp add: analyze_case_def try_block_def bind_def)
  have s3: "rf_classifier_pkl fs = Inr clf \<and> tfidf_vectorizer_pkl fs = Inr vec
        \<and> label_encoder_pkl fs = Inl e
        \<longrightarrow> analyze_case fs t = except_block t e"
    by (simp add: analyze_case_def try_block_def bind_def)
  have s4: "rf_classifier_pkl fs = Inr clf \<and> tfidf_vectorizer_pkl fs = Inr vec
        \<and> label_encoder_pkl fs = Inr enc \<and> model_config_json fs = Inl e
        \<longrightarrow> analyze_case fs t = except_block t e"
    by (simp add: analyze_case_def try_block_def bind_def)
  have s5: "rf_classifier_pkl fs = Inr clf \<and> tfidf_vectorizer_pkl fs = Inr vec
        \<and> label_encoder_pkl fs = Inr enc \<and> model_config_json fs = Inr cfg
        \<and> transform vec (preprocess_text t) = Inl e
        \<longrightarrow> analyze_case fs t = except_block t e"
    by (simp add: analyze_case_def try_block_def bind_def)
  have s6: "rf_classifier_pkl fs = Inr clf \<and> tfidf_vectorizer_pkl fs = Inr vec
        \<and> label_encoder_pkl fs = Inr enc \<and> model_config_json fs = Inr cfg
        \<and> transform vec (preprocess_text t) = Inr v \<and> predict clf v = Inl e
        \<longrightarrow> analyze_case fs t = except_block t e"
    by (simp add: analyze_case_def try_block_def bind_def)
  have s7: "rf_classifier_pkl fs = Inr clf \<and> tfidf_vectorizer_pkl fs = Inr vec
        \<and> label_encoder_pkl fs = Inr enc \<and> model_config_json fs = Inr cfg
        \<and> transform vec (preprocess_text t) = Inr v \<and> predict clf v = Inr k
        \<and> predict_proba clf v = Inl e
        \<longrightarrow> analyze_case fs t = except_block t e"
    by (simp add: analyze_case_def try_block_def bind_def)
  have s8: "rf_classifier_pkl fs = Inr clf \<and> tfidf_vectorizer_pkl fs = Inr vec
        \<and> label_encoder_pkl fs = Inr enc \<and> model_config_json fs = Inr cfg
        \<and> transform vec (preprocess_text t) = Inr v \<and> predict clf v = Inr k
        \<and> predict_proba clf v = Inr ps \<and> inverse_transform enc k = Inl e
        \<longrightarrow> analyze_case fs t = except_block t e"
    by (simp add: analyze_case_def try_block_def bind_def)
  have s9: "try_block fs t = Inl e \<longrightarrow> analyze_case fs t = except_block t e"
    by (simp add: analyze_case_def)
  have rec: "except_block t e =
        [(''case_text'', Str t), (''error'', Str (str e)),
         (''message'', Str ''An error occurred during analysis. Please check if all model files are available.'')]"
    by (simp add: except_block_def)
  have ct: "map_of (analyze_case fs t) ''case_text'' = Some (Str t)"
  proof (cases "try_block fs t")
    case (Inl e')
    then show ?thesis by (simp add: analyze_case_def except_block_def)
  next
    case (Inr r)
    then show ?thesis
      by (auto simp: analyze_case_def try_block_def bind_def Let_def split: sum.splits)
  qed
  have excl: "\<not> (''error'' \<in> set (map fst (analyze_case fs t))
        \<and> (''predicted_section'' \<in> set (map fst (analyze_case fs t))
           \<or> ''confidence'' \<in> set (map fst (analyze_case fs t))
           \<or> ''parties'' \<in> set (map fst (analyze_case fs t))
           \<or> ''explanation'' \<in> set (map fst (analyze_case fs t))
           \<or> ''recommendations'' \<in> set (map fst (analyze_case fs t))))"
    using analyze_case_keys [of fs t] by (elim disjE) simp_all
  from s1 s2 s3 s4 s5 s6 s7 s8 s9 rec ct excl show ?thesis by (intro conjI)
qed


theorem analyze_case_failure_record_witness:
  "analyze_case (fixture_files\<lparr>rf_classifier_pkl := Inl (Exception ''rf_classifier.pkl: no such file'')\<rparr>)
       ''Person A attacked Person B''
     = [(''case_text'', Str ''Person A attacked Person B''),
        (''error'', Str ''rf_classifier.pkl: no such file''),
        (''message'', Str ''An error occurred during analysis. Please check if all model files are available.'')]
   \<and> analyze_case
       (fixture_files\<lparr>tfidf_vectorizer_pkl :=
          Inr \<lparr>transform = (\<lambda>doc. Inl (Exception ''vocabulary not fitted''))\<rparr>\<rparr>)
       ''Person A attacked Person B''
     = [(''case_text'', Str ''Person A attacked Person B''),
        (''error'', Str ''vocabulary not fitted''),
        (''message'', Str ''An error occurred during analysis. Please check if all model files are available.'')]
   \<and> analyze_case
       (fixture_files\<lparr>rf_classifier_pkl :=
          Inr \<lparr>predict = (\<lambda>v. Inl (Exception ''X has 3 features, but the classifier expects 5'')),
               predict_proba = (\<lambda>v. Inr [1])\<rparr>\<rparr>)
       ''Person A attacked Person B''
     = [(''case_text'', Str ''Person A attacked Person B''),
        (''error'', Str ''X has 3 features, but the classifier expects 5''),
        (''message'', Str ''An error occurred during analysis. Please check if all model files are available.'')]
   \<and> analyze_case
       (fixture_files\<lparr>rf_classifier_pkl :=
          Inr \<lparr>predict = (\<lambda>v. Inr 7), predict_proba = (\<lambda>v. Inr [1])\<rparr>\<rparr>)
       ''Person A attacked Person B''
     = [(''case_text'', Str ''Person A attacked Person B''),
        (''error'', Str ''y contains previously unseen labels''),
        (''message'', Str ''An error occurred during analysis. Please check if all model files are available.'')]"
proof -
  let ?t = "''Person A attacked Person B''"
  let ?e1 = "Exception ''rf_classifier.pkl: no such file''"
  let ?f1 = "fixture_files\<lparr>rf_classifier_pkl := Inl ?e1\<rparr>"
  let ?e2 = "Exception ''vocabulary not fitted''"
  let ?vec = "\<lparr>transform = (\<lambda>doc. Inl ?e2)\<rparr>"
  let ?f2 = "fixture_files\<lparr>tfidf_vectorizer_pkl := Inr ?vec\<rparr>"
  let ?e3 = "Exception ''X has 3 features, but the classifier expects 5''"
  let ?clf3 = "\<lparr>predict = (\<lambda>v. Inl ?e3), predict_proba = (\<lambda>v. Inr [1 :: real])\<rparr>"
  let ?f3 = "fixture_files\<lparr>rf_classifier_pkl := Inr ?clf3\<rparr>"
  let ?e4 = "Exception ''y contains previously unseen labels''"
  let ?clf4 = "\<lparr>predict = (\<lambda>v. Inr 7), predict_proba = (\<lambda>v. Inr [1 :: real])\<rparr>"
  let ?f4 = "fixture_files\<lparr>rf_classifier_pkl := Inr ?clf4\<rparr>"
  have h1: "rf_classifier_pkl ?f1 = Inl ?e1" by simp
  have h2: "rf_classifier_pkl ?f2 = Inr fixture_classifier \<and> tfidf_vectorizer_pkl ?f2 = Inr ?vec
      \<and> label_encoder_pkl ?f2 = Inr fixture_label_encoder \<and> model_config_json ?f2 = Inr ''{}''
      \<and> transform ?vec (preprocess_text ?t) = Inl ?e2"
    by (simp add: fixture_files_def)
  have h3: "rf_classifier_pkl ?f3 = Inr ?clf3 \<and> tfidf_vectorizer_pkl ?f3 = Inr fixture_vectorizer
      \<and> label_encoder_pkl ?f3 = Inr fixture_label_encoder \<and> model_config_json ?f3 = Inr ''{}''
      \<and> transform fixture_vectorizer (preprocess_text ?t) = Inr [1, 0, 0]
      \<and> predict ?clf3 [1, 0, 0] = Inl ?e3"
    by (simp add: fixture_files_def fixture_vectorizer_def)
  have h4: "rf_classifier_pkl ?f4 = Inr ?clf4 \<and> tfidf_vectorizer_pkl ?f4 = Inr fixture_vectorizer
      \<and> label_encoder_pkl ?f4 = Inr fixture_label_encoder \<and> model_config_json ?f4 = Inr ''{}''
      \<and> transform fixture_vectorizer (preprocess_text ?t) = Inr [1, 0, 0]
      \<and> predict ?clf4 [1, 0, 0] = Inr 7 \<and> predict_proba ?clf4 [1, 0, 0] = Inr [1]
      \<and> inverse_transform fixture_label_encoder 7 = Inl ?e4"
    by (simp add: fixture_files_def fixture_vectorizer_def fixture_label_encoder_def)
  have r1: "analyze_case ?f1 ?t = except_block ?t ?e1"
    using analyze_case_failure_record [of ?f1 ?e1 ?t] h1 by blast
  have r2: "analyze_case ?f2 ?t = except_block ?t ?e2"
    using analyze_case_failure_record [of ?f2 ?e2 ?t fixture_classifier ?vec fixture_label_encoder "''{}''"] h2
    by blast
  have r3: "analyze_case ?f3 ?t = except_block ?t ?e3"
    using analyze_case_failure_record [of ?f3 ?e3 ?t ?clf3 fixture_vectorizer fixture_label_encoder "''{}''" "[1, 0, 0]"] h3
    by blast
  have r4: "analyze_case ?f4 ?t = except_block ?t ?e4"
    using analyze_case_failure_record [of ?f4 ?e4 ?t ?clf4 fixture_vectorizer fixture_label_encoder "''{}''" "[1, 0, 0]" 7 "[1]"] h4
    by blast
  show ?thesis
    unfolding r1 r2 r3 r4 by (simp add: except_block_def)
qed

lemma scenario_parties:
  "extract_parties ''Person A murdered Person B by stabbing multiple times''
   = [''murdered Person'', ''B by'', ''stabbing multiple'', ''Person A'', ''Person B'']"
  by code_simp

lemma scenario_explanation:
  "get_section_explanation ''302'' ''Person A murdered Person B by stabbing multiple times''
   = explanation_302"
  by code_simp

lemma murder_prefix: "prefix ''Murder:'' explanation_302"
  by (simp add: explanation_302_def)

text \<open>
  Claim C9. For the input "Person A murdered Person B by stabbing multiple times",
  artifacts that load, a predicted index that decodes to "302" and a distribution
  whose largest entry is 0.91, the result is the success record with section "302",
  confidence 91, the explanation that begins "Murder:", the high-confidence
  recommendation, and participants that include "Person A" and "Person B".
\<close>

theorem end_to_end_murder_scenario:
  assumes "rf_classifier_pkl fs = Inr clf" and "tfidf_vectorizer_pkl fs = Inr vec"
    and "label_encoder_pkl fs = Inr enc" and "model_config_json fs = Inr cfg"
    and "transform vec (preprocess_text ''Person A murdered Person B by stabbing multiple times'') = Inr v"
    and "predict clf v = Inr k" and "predict_proba clf v = Inr ps"
    and "inverse_transform enc k = Inr ''302''"
    and "ps \<noteq> []" and "Max (set ps) = 91 / 100"
  shows "analyze_case fs ''Person A murdered Person B by stabbing multiple times'' =
      [(''case_text'', Str ''Person A murdered Person B by stabbing multiple times''),
       (''predicted_section'', Str ''302''),
       (''confidence'', Float 91),
       (''parties'', StrList [''murdered Person'', ''B by'', ''stabbing multiple'', ''Person A'', ''Person B'']),
       (''explanation'', Str explanation_302),
       (''recommendations'', Str recommendations_high)]
    \<and> prefix ''Murder:'' explanation_302
    \<and> get_recommendations 91 = recommendations_high"
proof -
  let ?t = "''Person A murdered Person B by stabbing multiple times''"
  have "try_block fs ?t = Inr
     [(''case_text'', Str ?t),
      (''predicted_section'', Str ''302''),
      (''confidence'', Float (Max (set ps) * 100)),
      (''parties'', StrList (extract_parties ?t)),
      (''explanation'', Str (get_section_explanation ''302'' ?t)),
      (''recommendations'', Str (get_recommendations (Max (set ps) * 100)))]"
    using assms(1-9) by (rule try_block_success)
  moreover have "get_recommendations 91 = recommendations_high"
    by (simp add: get_recommendations_def)
  ultimately show ?thesis
    unfolding assms(10) scenario_parties scenario_explanation
    using murder_prefix by (simp add: analyze_case_def)
qed

theorem end_to_end_murder_scenario_witness:
  "analyze_case fixture_files ''Person A murdered Person B by stabbing multiple times'' =
      [(''case_text'', Str ''Person A murdered Person B by stabbing multiple times''),
       (''predicted_section'', Str ''302''),
       (''confidence'', Float 91),
       (''parties'', StrList [''murdered Person'', ''B by'', ''stabbing multiple'', ''Person A'', ''Person B'']),
       (''explanation'', Str explanation_302),
       (''recommendations'', Str recommendations_high)]
   \<and> prefix ''Murder:'' explanation_302"
proof -
  let ?t = "''Person A murdered Person B by stabbing multiple times''"
  have a1: "rf_classifier_pkl fixture_files = Inr fixture_classifier"
    and a2: "tfidf_vectorizer_pkl fixture_files = Inr fixture_vectorizer"
    and a3: "label_encoder_pkl fixture_files = Inr fixture_label_encoder"
    and a4: "model_config_json fixture_files = Inr ''{}''"
    by (simp_all add: fixture_files_def)
  have a5: "transform fixture_vectorizer (preprocess_text ?t) = Inr [1, 0, 0]"
    by (simp add: fixture_vectorizer_def)
  have a6: "predict fixture_classifier [1, 0, 0] = Inr 0"
    and a7: "predict_proba fixture_classifier [1, 0, 0] = Inr [91 / 100, 6 / 100, 3 / 100]"
    by (simp_all add: fixture_classifier_def)
  have a8: "inverse_transform fixture_label_encoder 0 = Inr ''302''"
    by (simp add: fixture_label_encoder_def)
  have a9: "[91 / 100, 6 / 100, 3 / 100 :: real] \<noteq> []" by simp
  have a10: "Max (set [91 / 100, 6 / 100, 3 / 100 :: real]) = 91 / 100" by simp
  show ?thesis
    using end_to_end_murder_scenario [OF a1 a2 a3 a4 a5 a6 a7 a8 a9 a10] by simp
qed

end
